theory Spec2Isabelle
  imports Main
begin

section \<open>Types shared by the two passes\<close>

text \<open>
  Modelled from the spec: \<open>glsl_type\<close> and its tests are declared in glsl\_types.h and
  nir\_types.h, which are not among the sources. A type is a tree: scalar and vector
  (the leaves), matrix, array of an element type and a length, struct of ordered
  fields; the interface type of a subroutine is a kind of its own, given by its name.
  Both passes discriminate on the kind: copy splitting asks whether a type is a vector
  or scalar, a struct, a matrix or an array; subroutine lowering strips the arrays off
  the type of the bound variable and compares the rest with the interface types a
  function declares. A matrix is given by its number of columns and of rows.
\<close>

datatype glsl_type =
    Scalar
  | Vector nat
  | Matrix nat nat
  | Array glsl_type nat
  | Struct "glsl_type list"
  | Subroutine string

fun glsl_type_is_vector_or_scalar :: "glsl_type \<Rightarrow> bool" where
  "glsl_type_is_vector_or_scalar Scalar = True"
| "glsl_type_is_vector_or_scalar (Vector n) = True"
| "glsl_type_is_vector_or_scalar t = False"

fun glsl_type_is_struct :: "glsl_type \<Rightarrow> bool" where
  "glsl_type_is_struct (Struct fs) = True"
| "glsl_type_is_struct t = False"

fun glsl_type_is_matrix :: "glsl_type \<Rightarrow> bool" where
  "glsl_type_is_matrix (Matrix c r) = True"
| "glsl_type_is_matrix t = False"

fun glsl_type_is_array :: "glsl_type \<Rightarrow> bool" where
  "glsl_type_is_array (Array e n) = True"
| "glsl_type_is_array t = False"

text \<open>Number of fields of a struct, of elements of an array, of columns of a matrix.\<close>

fun glsl_get_length :: "glsl_type \<Rightarrow> nat" where
  "glsl_get_length (Struct fs) = length fs"
| "glsl_get_length (Array e n) = n"
| "glsl_get_length (Matrix c r) = c"
| "glsl_get_length t = 0"

text \<open>
  The type of field \<open>i\<close> of a struct; there is none for an index past the last field or
  for a type that is not a struct.
\<close>

fun glsl_get_struct_field :: "glsl_type \<Rightarrow> nat \<Rightarrow> glsl_type option" where
  "glsl_get_struct_field (Struct fs) i = (if i < length fs then Some (fs ! i) else None)"
| "glsl_get_struct_field t i = None"

text \<open>
  The type one array step leads to: the element type of an array, the column vector of
  a matrix.
\<close>

fun glsl_get_array_element :: "glsl_type \<Rightarrow> glsl_type option" where
  "glsl_get_array_element (Array e n) = Some e"
| "glsl_get_array_element (Matrix c r) = Some (Vector r)"
| "glsl_get_array_element t = None"

text \<open>\<open>without_array\<close> strips every enclosing array.\<close>

fun without_array :: "glsl_type \<Rightarrow> glsl_type" where
  "without_array (Array e n) = without_array e"
| "without_array t = t"

text \<open>
  A data type is built from the five kinds a copy can have: scalar, vector, matrix,
  array and struct.
\<close>

fun is_data_type :: "glsl_type \<Rightarrow> bool" where
  "is_data_type Scalar = True"
| "is_data_type (Vector n) = True"
| "is_data_type (Matrix c r) = True"
| "is_data_type (Array e n) = is_data_type e"
| "is_data_type (Struct fs) = list_all is_data_type fs"
| "is_data_type (Subroutine nm) = False"


section \<open>Copy splitting (nir\_split\_var\_copies.c)\<close>

subsection \<open>Dereference chains and instructions\<close>

record nir_variable =
  var_name :: string
  var_type :: glsl_type

datatype nir_deref_step =
    Deref_struct nat
  | Deref_array nat
  | Deref_array_wildcard

text \<open>
  Modelled from the spec: \<open>nir_deref_instr\<close> and the builder's \<open>nir_build_deref_*\<close>
  are declared in nir.h and nir\_builder.h, which are not among the sources. A
  dereference chain is an ordered sequence of steps rooted at a variable; the type it
  resolves to is obtained by folding the steps over the variable's type, and is what
  the \<open>type\<close> field of a deref holds. Building a step the type at hand does not have
  gives no deref.
\<close>

record nir_deref_instr =
  deref_var :: nir_variable
  deref_path :: "nir_deref_step list"
  deref_type :: glsl_type

definition nir_build_deref_var :: "nir_variable \<Rightarrow> nir_deref_instr" where
  "nir_build_deref_var v = \<lparr>deref_var = v, deref_path = [], deref_type = var_type v\<rparr>"

definition nir_build_deref_struct :: "nir_deref_instr \<Rightarrow> nat \<Rightarrow> nir_deref_instr option" where
  "nir_build_deref_struct parent i =
     (case glsl_get_struct_field (deref_type parent) i of
        None \<Rightarrow> None
      | Some t \<Rightarrow> Some (parent\<lparr>deref_path := deref_path parent @ [Deref_struct i],
                                deref_type := t\<rparr>))"

definition nir_build_deref_array_wildcard :: "nir_deref_instr \<Rightarrow> nir_deref_instr option" where
  "nir_build_deref_array_wildcard parent =
     (case glsl_get_array_element (deref_type parent) of
        None \<Rightarrow> None
      | Some t \<Rightarrow> Some (parent\<lparr>deref_path := deref_path parent @ [Deref_array_wildcard],
                                deref_type := t\<rparr>))"

text \<open>
  The pass tells three kinds of instruction apart: the \<open>copy_deref\<close> intrinsic with its
  two sources (destination first), any other intrinsic, and any instruction that is
  not an intrinsic.
\<close>

datatype nir_instr =
    Intrinsic_copy_deref nir_deref_instr nir_deref_instr
  | Intrinsic_other nat
  | Instr_other nat

datatype nir_error =
    Assert_type_mismatch
  | Assert_not_matrix_or_array
  | Invalid_deref

definition nir_copy_deref :: "nir_deref_instr \<Rightarrow> nir_deref_instr \<Rightarrow> nir_instr list" where
  "nir_copy_deref dst src = [Intrinsic_copy_deref dst src]"

text \<open>
  Running the emissions of a loop one after the other; the first failed assertion ends
  the run.
\<close>

fun emit_all :: "(nir_error + nir_instr list) list \<Rightarrow> nir_error + nir_instr list" where
  "emit_all [] = Inr []"
| "emit_all (r # rs) =
     (case r of
        Inl e \<Rightarrow> Inl e
      | Inr out \<Rightarrow> (case emit_all rs of Inl e \<Rightarrow> Inl e | Inr outs \<Rightarrow> Inr (out @ outs)))"

subsection \<open>split\_deref\_copy\_instr\<close>

text \<open>
  The result is the list of copies the builder emits at its cursor, in emission order,
  or the assertion that failed: the model is of a build with assertions enabled
  (\<open>NDEBUG\<close> not defined). \<open>Invalid_deref\<close> stands for a step built on a type that
  does not have it; the tests that precede each build exclude it.
\<close>

function split_deref_copy_instr ::
  "nir_deref_instr \<Rightarrow> nir_deref_instr \<Rightarrow> nir_error + nir_instr list" where
  "split_deref_copy_instr dst src =
     (if deref_type dst \<noteq> deref_type src then Inl Assert_type_mismatch
      else if glsl_type_is_vector_or_scalar (deref_type src) then
        Inr (nir_copy_deref dst src)
      else if glsl_type_is_struct (deref_type src) then
        emit_all (map (\<lambda>i.
          case nir_build_deref_struct dst i of
            None \<Rightarrow> Inl Invalid_deref
          | Some d \<Rightarrow>
             (case nir_build_deref_struct src i of
                None \<Rightarrow> Inl Invalid_deref
              | Some s \<Rightarrow> split_deref_copy_instr d s))
          [0 ..< glsl_get_length (deref_type src)])
      else if \<not> (glsl_type_is_matrix (deref_type src) \<or> glsl_type_is_array (deref_type src))
        then Inl Assert_not_matrix_or_array
      else
        (case nir_build_deref_array_wildcard dst of
           None \<Rightarrow> Inl Invalid_deref
         | Some d \<Rightarrow>
            (case nir_build_deref_array_wildcard src of
               None \<Rightarrow> Inl Invalid_deref
             | Some s \<Rightarrow> split_deref_copy_instr d s)))"
  by pat_completeness auto

text \<open>
  The nesting depth of a type bounds the recursion: a field of a struct and the element
  of an array or matrix are less deep than the type itself.
\<close>

fun type_depth :: "glsl_type \<Rightarrow> nat" where
  "type_depth Scalar = 0"
| "type_depth (Vector n) = 0"
| "type_depth (Matrix c r) = 1"
| "type_depth (Array e n) = Suc (type_depth e)"
| "type_depth (Struct fs) = Suc (sum_list (map type_depth fs))"
| "type_depth (Subroutine nm) = 0"

lemma depth_struct_field:
  "glsl_get_struct_field t i = Some u \<Longrightarrow> type_depth u < type_depth t"
proof (cases t)
  case (Struct fs)
  assume "glsl_get_struct_field t i = Some u"
  with Struct have i: "i < length fs" and u: "u = fs ! i"
    by (auto split: if_splits)
  from i have "fs ! i \<in> set fs" by simp
  then have "type_depth (fs ! i) \<le> sum_list (map type_depth fs)"
    by (simp add: member_le_sum_list)
  with Struct u show ?thesis by simp
qed auto

lemma depth_array_element:
  "glsl_get_array_element t = Some u \<Longrightarrow> type_depth u < type_depth t"
  by (cases t) auto

termination split_deref_copy_instr
proof (relation "measure (\<lambda>(dst, src). type_depth (deref_type src))")
  show "wf (measure (\<lambda>(dst, src). type_depth (deref_type src)))" by simp
next
  fix dst src :: nir_deref_instr and i d s
  assume "nir_build_deref_struct src i = Some s"
  then have "type_depth (deref_type s) < type_depth (deref_type src)"
    by (auto simp: nir_build_deref_struct_def split: option.splits dest: depth_struct_field)
  then show "((d, s), (dst, src)) \<in> measure (\<lambda>(dst, src). type_depth (deref_type src))"
    by simp
next
  fix dst src :: nir_deref_instr and d s
  assume "nir_build_deref_array_wildcard src = Some s"
  then have "type_depth (deref_type s) < type_depth (deref_type src)"
    by (auto simp: nir_build_deref_array_wildcard_def split: option.splits
             dest: depth_array_element)
  then show "((d, s), (dst, src)) \<in> measure (\<lambda>(dst, src). type_depth (deref_type src))"
    by simp
qed

declare split_deref_copy_instr.simps [simp del]

subsection \<open>Metadata validity\<close>

text \<open>
  \<open>valid_metadata\<close> is a bit set; a set of flags stands for it, \<open>&\<close> is intersection
  and \<open>& ~\<close> is set difference.
\<close>

datatype nir_metadata =
    Nir_metadata_block_index
  | Nir_metadata_dominance
  | Nir_metadata_not_properly_reset

type_synonym nir_block = "nir_instr list"

record nir_function_impl =
  body :: "nir_block list"
  valid_metadata :: "nir_metadata set"

text \<open>
  Modelled from the spec: \<open>nir_metadata_preserve\<close> is declared in nir.h, which is not
  among the sources. The tracker's \<open>preserve(analysis_set)\<close> keeps the validity of the
  analyses in the set and drops every other flag.
\<close>

definition nir_metadata_preserve ::
  "nir_function_impl \<Rightarrow> nir_metadata set \<Rightarrow> nir_function_impl" where
  "nir_metadata_preserve impl preserved =
     impl\<lparr>valid_metadata := valid_metadata impl \<inter> preserved\<rparr>"

subsection \<open>split\_var\_copies\_impl\<close>

text \<open>
  The loop over the instructions of one block. \<open>nir_instr_remove\<close> leaves the cursor
  where the copy stood, so what the recursion emits takes the place of the copy; the
  iteration goes on with the instruction that followed the copy, not with the emitted
  ones. \<open>progress\<close> is the loop's flag. After the loops, progress declares block index
  and dominance preserved; without progress the debug build clears the
  \<open>not_properly_reset\<close> bit and touches nothing else.
\<close>

fun split_block :: "bool \<Rightarrow> nir_block \<Rightarrow> nir_error + (bool \<times> nir_block)" where
  "split_block progress [] = Inr (progress, [])"
| "split_block progress (Intrinsic_copy_deref dst src # rest) =
     (case split_deref_copy_instr dst src of
        Inl e \<Rightarrow> Inl e
      | Inr out \<Rightarrow>
         (case split_block True rest of
            Inl e \<Rightarrow> Inl e
          | Inr (p, rest') \<Rightarrow> Inr (p, out @ rest')))"
| "split_block progress (instr # rest) =
     (case split_block progress rest of
        Inl e \<Rightarrow> Inl e
      | Inr (p, rest') \<Rightarrow> Inr (p, instr # rest'))"

fun split_blocks :: "bool \<Rightarrow> nir_block list \<Rightarrow> nir_error + (bool \<times> nir_block list)" where
  "split_blocks progress [] = Inr (progress, [])"
| "split_blocks progress (block # blocks) =
     (case split_block progress block of
        Inl e \<Rightarrow> Inl e
      | Inr (p, block') \<Rightarrow>
         (case split_blocks p blocks of
            Inl e \<Rightarrow> Inl e
          | Inr (p', blocks') \<Rightarrow> Inr (p', block' # blocks')))"

definition split_var_copies_impl ::
  "nir_function_impl \<Rightarrow> nir_error + (bool \<times> nir_function_impl)" where
  "split_var_copies_impl impl =
     (case split_blocks False (body impl) of
        Inl e \<Rightarrow> Inl e
      | Inr (progress, blocks') \<Rightarrow>
         (if progress then
            Inr (progress,
                 nir_metadata_preserve (impl\<lparr>body := blocks'\<rparr>)
                   {Nir_metadata_block_index, Nir_metadata_dominance})
          else
            Inr (progress,
                 impl\<lparr>body := blocks',
                      valid_metadata :=
                        valid_metadata impl - {Nir_metadata_not_properly_reset}\<rparr>)))"

subsection \<open>nir\_split\_var\_copies\<close>

record nir_function =
  function_name :: string
  impl :: "nir_function_impl option"

record nir_shader =
  shader_functions :: "nir_function list"

fun split_functions ::
  "bool \<Rightarrow> nir_function list \<Rightarrow> nir_error + (bool \<times> nir_function list)" where
  "split_functions progress [] = Inr (progress, [])"
| "split_functions progress (function # rest) =
     (case impl function of
        None \<Rightarrow>
         (case split_functions progress rest of
            Inl e \<Rightarrow> Inl e
          | Inr (p, rest') \<Rightarrow> Inr (p, function # rest'))
      | Some i \<Rightarrow>
         (case split_var_copies_impl i of
            Inl e \<Rightarrow> Inl e
          | Inr (q, i') \<Rightarrow>
             (case split_functions (q \<or> progress) rest of
                Inl e \<Rightarrow> Inl e
              | Inr (p, rest') \<Rightarrow> Inr (p, function\<lparr>impl := Some i'\<rparr> # rest'))))"

definition nir_split_var_copies :: "nir_shader \<Rightarrow> nir_error + (bool \<times> nir_shader)" where
  "nir_split_var_copies shader =
     (case split_functions False (shader_functions shader) of
        Inl e \<Rightarrow> Inl e
      | Inr (progress, fs) \<Rightarrow> Inr (progress, shader\<lparr>shader_functions := fs\<rparr>))"

subsection \<open>Programs the pass accepts, and programs it leaves alone\<close>

text \<open>
  A copy is well typed when its two chains resolve to the same data type; it is split
  when that type is moreover a vector or a scalar.
\<close>

fun copy_well_typed :: "nir_instr \<Rightarrow> bool" where
  "copy_well_typed (Intrinsic_copy_deref dst src) =
     (deref_type dst = deref_type src \<and> is_data_type (deref_type src))"
| "copy_well_typed instr = True"

fun is_copy :: "nir_instr \<Rightarrow> bool" where
  "is_copy (Intrinsic_copy_deref dst src) = True"
| "is_copy instr = False"

definition impl_instrs :: "nir_function_impl \<Rightarrow> nir_instr list" where
  "impl_instrs i = concat (body i)"

definition function_instrs :: "nir_function \<Rightarrow> nir_instr list" where
  "function_instrs f = (case impl f of None \<Rightarrow> [] | Some i \<Rightarrow> impl_instrs i)"

definition shader_instrs :: "nir_shader \<Rightarrow> nir_instr list" where
  "shader_instrs sh = concat (map function_instrs (shader_functions sh))"

definition shader_well_typed :: "nir_shader \<Rightarrow> bool" where
  "shader_well_typed sh = list_all copy_well_typed (shader_instrs sh)"

definition shader_has_copy :: "nir_shader \<Rightarrow> bool" where
  "shader_has_copy sh = list_ex is_copy (shader_instrs sh)"

text \<open>
  A copy is split when its two chains resolve to the same vector or scalar type.
\<close>

fun is_split_copy :: "nir_instr \<Rightarrow> bool" where
  "is_split_copy (Intrinsic_copy_deref dst src) =
     (deref_type dst = deref_type src \<and> glsl_type_is_vector_or_scalar (deref_type src))"
| "is_split_copy instr = False"

fun copy_is_split :: "nir_instr \<Rightarrow> bool" where
  "copy_is_split (Intrinsic_copy_deref dst src) =
     (deref_type dst = deref_type src \<and> glsl_type_is_vector_or_scalar (deref_type src))"
| "copy_is_split instr = True"

text \<open>
  The chain one struct step, and one wildcard step, further than \<open>d\<close>, with the type
  the step resolves to.
\<close>

definition struct_step :: "nir_deref_instr \<Rightarrow> glsl_type list \<Rightarrow> nat \<Rightarrow> nir_deref_instr" where
  "struct_step d fs i = d\<lparr>deref_path := deref_path d @ [Deref_struct i], deref_type := fs ! i\<rparr>"

definition wildcard_step :: "nir_deref_instr \<Rightarrow> glsl_type \<Rightarrow> nir_deref_instr" where
  "wildcard_step d u = d\<lparr>deref_path := deref_path d @ [Deref_array_wildcard], deref_type := u\<rparr>"

subsection \<open>Example: a struct of a vec3 and a float[4]\<close>

definition example_struct :: glsl_type where
  "example_struct = Struct [Vector 3, Array Scalar 4]"

definition example_dst :: nir_deref_instr where
  "example_dst = nir_build_deref_var \<lparr>var_name = ''dst'', var_type = example_struct\<rparr>"

definition example_src :: nir_deref_instr where
  "example_src = nir_build_deref_var \<lparr>var_name = ''src'', var_type = example_struct\<rparr>"

definition example_shader :: nir_shader where
  "example_shader =
     \<lparr>shader_functions =
        [\<lparr>function_name = ''main'',
          impl = Some \<lparr>body = [[Instr_other 0, Intrinsic_copy_deref example_dst example_src]],
                       valid_metadata = {Nir_metadata_block_index, Nir_metadata_dominance,
                                         Nir_metadata_not_properly_reset}\<rparr>\<rparr>]\<rparr>"

definition example_fields :: "glsl_type list" where
  "example_fields = [Vector 3, Array Scalar 4]"

text \<open>The example after one run of the pass.\<close>

definition example_shader_split :: nir_shader where
  "example_shader_split =
     \<lparr>shader_functions =
        [\<lparr>function_name = ''main'',
          impl = Some \<lparr>body =
            [[Instr_other 0,
              Intrinsic_copy_deref (struct_step example_dst example_fields 0)
                                   (struct_step example_src example_fields 0),
              Intrinsic_copy_deref
                (wildcard_step (struct_step example_dst example_fields 1) Scalar)
                (wildcard_step (struct_step example_src example_fields 1) Scalar)]],
            valid_metadata = {Nir_metadata_block_index, Nir_metadata_dominance}\<rparr>\<rparr>]\<rparr>"

text \<open>A function body without any copy, its debug bit set.\<close>

definition no_copy_impl :: nir_function_impl where
  "no_copy_impl =
     \<lparr>body = [[Instr_other 0, Intrinsic_other 1]],
      valid_metadata = {Nir_metadata_block_index, Nir_metadata_dominance,
                        Nir_metadata_not_properly_reset}\<rparr>"

definition some_copy_impl :: nir_function_impl where
  "some_copy_impl =
     \<lparr>body = [[Instr_other 0, Intrinsic_copy_deref example_dst example_src]],
      valid_metadata = {Nir_metadata_block_index, Nir_metadata_dominance,
                        Nir_metadata_not_properly_reset}\<rparr>"


text \<open>The two bodies after one run of the pass.\<close>

definition no_copy_impl_after :: nir_function_impl where
  "no_copy_impl_after =
     \<lparr>body = [[Instr_other 0, Intrinsic_other 1]],
      valid_metadata = {Nir_metadata_block_index, Nir_metadata_dominance}\<rparr>"

definition some_copy_impl_after :: nir_function_impl where
  "some_copy_impl_after =
     \<lparr>body =
        [[Instr_other 0,
          Intrinsic_copy_deref (struct_step example_dst example_fields 0)
                               (struct_step example_src example_fields 0),
          Intrinsic_copy_deref
            (wildcard_step (struct_step example_dst example_fields 1) Scalar)
            (wildcard_step (struct_step example_src example_fields 1) Scalar)]],
      valid_metadata = {Nir_metadata_block_index, Nir_metadata_dominance}\<rparr>"

section \<open>Properties of copy splitting\<close>

subsection \<open>The recursion\<close>

lemma emit_all_total:
  "(\<And>r. r \<in> set rs \<Longrightarrow> \<exists>out. r = Inr out) \<Longrightarrow> \<exists>out. emit_all rs = Inr out"
proof (induction rs)
  case Nil
  show ?case by simp
next
  case (Cons r rs)
  from Cons.prems obtain out where r: "r = Inr out" by auto
  from Cons obtain outs where "emit_all rs = Inr outs" by auto
  with r show ?case by simp
qed

lemma emit_all_member:
  "emit_all rs = Inr out \<Longrightarrow> instr \<in> set out \<Longrightarrow> \<exists>out'. Inr out' \<in> set rs \<and> instr \<in> set out'"
proof (induction rs arbitrary: out)
  case Nil
  then show ?case by simp
next
  case (Cons r rs)
  from Cons.prems(1) obtain o1 o2 where r: "r = Inr o1" and rs: "emit_all rs = Inr o2"
    and out: "out = o1 @ o2"
    by (auto split: sum.splits)
  from Cons.prems(2) out consider "instr \<in> set o1" | "instr \<in> set o2" by auto
  then show ?case
  proof cases
    case 1
    with r show ?thesis by auto
  next
    case 2
    from Cons.IH[OF rs 2] show ?thesis by auto
  qed
qed

lemma struct_field_some:
  "glsl_type_is_struct t \<Longrightarrow> i < glsl_get_length t \<Longrightarrow> \<exists>u. glsl_get_struct_field t i = Some u"
  by (cases t) auto

lemma struct_field_data:
  "is_data_type t \<Longrightarrow> glsl_get_struct_field t i = Some u \<Longrightarrow> is_data_type u"
  by (cases t) (auto simp: list_all_length split: if_splits)

lemma array_element_data:
  "is_data_type t \<Longrightarrow> glsl_get_array_element t = Some u \<Longrightarrow> is_data_type u"
  by (cases t) auto

lemma data_type_kinds:
  "is_data_type t \<Longrightarrow> \<not> glsl_type_is_vector_or_scalar t \<Longrightarrow> \<not> glsl_type_is_struct t \<Longrightarrow>
   glsl_type_is_matrix t \<or> glsl_type_is_array t"
  by (cases t) auto

lemma array_element_some:
  "glsl_type_is_matrix t \<or> glsl_type_is_array t \<Longrightarrow> \<exists>u. glsl_get_array_element t = Some u"
  by (cases t) auto

lemma split_deref_copy_instr_total:
  "deref_type dst = deref_type src \<Longrightarrow> is_data_type (deref_type src) \<Longrightarrow>
   \<exists>out. split_deref_copy_instr dst src = Inr out"
proof (induction dst src rule: split_deref_copy_instr.induct)
  case (1 dst src)
  let ?t = "deref_type src"
  show ?case
  proof (cases "glsl_type_is_vector_or_scalar ?t")
    case True
    with "1.prems" show ?thesis by (simp add: split_deref_copy_instr.simps)
  next
    case leaf: False
    show ?thesis
    proof (cases "glsl_type_is_struct ?t")
      case True
      have "\<exists>out. (case nir_build_deref_struct dst i of
                None \<Rightarrow> Inl Invalid_deref
              | Some d \<Rightarrow> (case nir_build_deref_struct src i of
                    None \<Rightarrow> Inl Invalid_deref
                  | Some s \<Rightarrow> split_deref_copy_instr d s)) = Inr out"
        if i: "i \<in> set [0 ..< glsl_get_length ?t]" for i
      proof -
        from i True obtain u where u: "glsl_get_struct_field ?t i = Some u"
          using struct_field_some by auto
        let ?d = "dst\<lparr>deref_path := deref_path dst @ [Deref_struct i], deref_type := u\<rparr>"
        let ?s = "src\<lparr>deref_path := deref_path src @ [Deref_struct i], deref_type := u\<rparr>"
        have d: "nir_build_deref_struct dst i = Some ?d"
          and s: "nir_build_deref_struct src i = Some ?s"
          using u "1.prems" by (simp_all add: nir_build_deref_struct_def)
        have "\<exists>out. split_deref_copy_instr ?d ?s = Inr out"
          using "1.IH"(1)[OF _ leaf True i d s] "1.prems" u struct_field_data by auto
        with d s show ?thesis by simp
      qed
      then have "\<exists>out. emit_all (map (\<lambda>i.
          case nir_build_deref_struct dst i of
            None \<Rightarrow> Inl Invalid_deref
          | Some d \<Rightarrow>
             (case nir_build_deref_struct src i of
                None \<Rightarrow> Inl Invalid_deref
              | Some s \<Rightarrow> split_deref_copy_instr d s))
          [0 ..< glsl_get_length ?t]) = Inr out"
        by (intro emit_all_total) auto
      with "1.prems" leaf True show ?thesis
        by (subst split_deref_copy_instr.simps) simp
    next
      case False
      with leaf "1.prems" have ma: "glsl_type_is_matrix ?t \<or> glsl_type_is_array ?t"
        using data_type_kinds by blast
      then obtain u where u: "glsl_get_array_element ?t = Some u"
        using array_element_some by blast
      let ?d = "dst\<lparr>deref_path := deref_path dst @ [Deref_array_wildcard], deref_type := u\<rparr>"
      let ?s = "src\<lparr>deref_path := deref_path src @ [Deref_array_wildcard], deref_type := u\<rparr>"
      have d: "nir_build_deref_array_wildcard dst = Some ?d"
        and s: "nir_build_deref_array_wildcard src = Some ?s"
        using u "1.prems" by (simp_all add: nir_build_deref_array_wildcard_def)
      have "\<exists>out. split_deref_copy_instr ?d ?s = Inr out"
        using "1.IH"(2)[OF _ leaf False _ d s] ma "1.prems" u array_element_data by auto
      with d s "1.prems" leaf False ma show ?thesis
        by (subst split_deref_copy_instr.simps) auto
    qed
  qed
qed

lemma split_deref_copy_instr_out:
  "split_deref_copy_instr dst src = Inr out \<Longrightarrow> instr \<in> set out \<Longrightarrow> is_split_copy instr"
proof (induction dst src arbitrary: out rule: split_deref_copy_instr.induct)
  case (1 dst src)
  let ?t = "deref_type src"
  from "1.prems"(1) have eq: "deref_type dst = ?t"
    by (subst (asm) split_deref_copy_instr.simps) (auto split: if_splits)
  show ?case
  proof (cases "glsl_type_is_vector_or_scalar ?t")
    case True
    with "1.prems" eq show ?thesis
      by (subst (asm) split_deref_copy_instr.simps) (auto simp: nir_copy_deref_def)
  next
    case leaf: False
    show ?thesis
    proof (cases "glsl_type_is_struct ?t")
      case True
      let ?f = "\<lambda>i. case nir_build_deref_struct dst i of
            None \<Rightarrow> Inl Invalid_deref
          | Some d \<Rightarrow>
             (case nir_build_deref_struct src i of
                None \<Rightarrow> Inl Invalid_deref
              | Some s \<Rightarrow> split_deref_copy_instr d s)"
      from "1.prems"(1) eq leaf True
      have "emit_all (map ?f [0 ..< glsl_get_length ?t]) = Inr out"
        by (subst (asm) split_deref_copy_instr.simps) simp
      from emit_all_member[OF this "1.prems"(2)]
      obtain out' i where i: "i \<in> set [0 ..< glsl_get_length ?t]"
        and f: "?f i = Inr out'" and mem: "instr \<in> set out'"
        by auto (metis)
      from f obtain d s where d: "nir_build_deref_struct dst i = Some d"
        and s: "nir_build_deref_struct src i = Some s"
        and r: "split_deref_copy_instr d s = Inr out'"
        by (auto split: option.splits)
      from "1.IH"(1)[OF _ leaf True i d s r mem] eq show ?thesis by simp
    next
      case False
      from "1.prems"(1) eq leaf False
      obtain d s where ma: "glsl_type_is_matrix ?t \<or> glsl_type_is_array ?t"
        and d: "nir_build_deref_array_wildcard dst = Some d"
        and s: "nir_build_deref_array_wildcard src = Some s"
        and r: "split_deref_copy_instr d s = Inr out"
        by (subst (asm) split_deref_copy_instr.simps) (auto split: if_splits option.splits)
      from "1.IH"(2)[OF _ leaf False _ d s r "1.prems"(2)] eq ma show ?thesis by simp
    qed
  qed
qed

lemma split_deref_copy_instr_leaf:
  "is_split_copy (Intrinsic_copy_deref dst src) \<Longrightarrow>
   split_deref_copy_instr dst src = Inr [Intrinsic_copy_deref dst src]"
  by (subst split_deref_copy_instr.simps) (simp add: nir_copy_deref_def)





subsection \<open>The pass\<close>

lemma split_out_all_split:
  "split_deref_copy_instr dst src = Inr out \<Longrightarrow> list_all copy_is_split out"
proof -
  assume r: "split_deref_copy_instr dst src = Inr out"
  have "copy_is_split i" if "i \<in> set out" for i
    using split_deref_copy_instr_out[OF r that] by (cases i) auto
  then show ?thesis by (simp add: list_all_iff)
qed

lemma split_block_result:
  "split_block p blk = Inr (p', out) \<Longrightarrow>
   p' = (p \<or> list_ex is_copy blk) \<and> list_all copy_is_split out \<and>
   (list_ex is_copy out \<longrightarrow> list_ex is_copy blk)"
proof (induction blk arbitrary: p p' out)
  case Nil
  then show ?case by simp
next
  case (Cons i blk)
  show ?case
  proof (cases i)
    case (Intrinsic_copy_deref dst src)
    with Cons.prems obtain o1 rest' where
      o1: "split_deref_copy_instr dst src = Inr o1" and
      r: "split_block True blk = Inr (p', rest')" and out: "out = o1 @ rest'"
      by (auto split: sum.splits)
    from Cons.IH[OF r] split_out_all_split[OF o1] out Intrinsic_copy_deref
    show ?thesis by simp
  next
    case (Intrinsic_other v)
    with Cons.prems obtain rest' where
      r: "split_block p blk = Inr (p', rest')" and out: "out = i # rest'"
      by (auto split: sum.splits)
    from Cons.IH[OF r] out Intrinsic_other show ?thesis by simp
  next
    case (Instr_other v)
    with Cons.prems obtain rest' where
      r: "split_block p blk = Inr (p', rest')" and out: "out = i # rest'"
      by (auto split: sum.splits)
    from Cons.IH[OF r] out Instr_other show ?thesis by simp
  qed
qed

lemma split_block_fixed:
  "list_all copy_is_split blk \<Longrightarrow> split_block p blk = Inr (p \<or> list_ex is_copy blk, blk)"
proof (induction p blk rule: split_block.induct)
  case (2 progress dst src rest)
  then show ?case by (simp add: split_deref_copy_instr_leaf)
qed auto

lemma split_block_total:
  "list_all copy_well_typed blk \<Longrightarrow> \<exists>p' out. split_block p blk = Inr (p', out)"
proof (induction p blk rule: split_block.induct)
  case (2 progress dst src rest)
  then obtain o1 where o1: "split_deref_copy_instr dst src = Inr o1"
    using split_deref_copy_instr_total[of dst src] by auto
  from "2.IH"[OF o1] "2.prems" obtain p' rest' where "split_block True rest = Inr (p', rest')"
    by auto
  with o1 show ?case by simp
qed auto

lemma split_blocks_result:
  "split_blocks p blks = Inr (p', out) \<Longrightarrow>
   p' = (p \<or> list_ex is_copy (concat blks)) \<and> list_all copy_is_split (concat out) \<and>
   (list_ex is_copy (concat out) \<longrightarrow> list_ex is_copy (concat blks))"
proof (induction blks arbitrary: p p' out)
  case Nil
  then show ?case by simp
next
  case (Cons b blks)
  from Cons.prems obtain q b' out' where
    b: "split_block p b = Inr (q, b')" and
    r: "split_blocks q blks = Inr (p', out')" and out: "out = b' # out'"
    by (auto split: sum.splits)
  from split_block_result[OF b] Cons.IH[OF r] out show ?case by auto
qed

lemma split_blocks_fixed:
  "list_all copy_is_split (concat blks) \<Longrightarrow>
   split_blocks p blks = Inr (p \<or> list_ex is_copy (concat blks), blks)"
  by (induction blks arbitrary: p) (auto simp: split_block_fixed)

lemma split_blocks_total:
  "list_all copy_well_typed (concat blks) \<Longrightarrow> \<exists>p' out. split_blocks p blks = Inr (p', out)"
proof (induction blks arbitrary: p)
  case Nil
  show ?case by simp
next
  case (Cons b blks)
  then obtain q b' where b: "split_block p b = Inr (q, b')"
    using split_block_total[of b p] by auto
  from Cons obtain p' out where "split_blocks q blks = Inr (p', out)" by fastforce
  with b show ?case by simp
qed

lemma split_var_copies_impl_result:
  assumes "split_var_copies_impl i = Inr (p, i')"
  shows "p = list_ex is_copy (impl_instrs i)" and "list_all copy_is_split (impl_instrs i')"
    and "valid_metadata i' =
           (if p then valid_metadata i \<inter> {Nir_metadata_block_index, Nir_metadata_dominance}
            else valid_metadata i - {Nir_metadata_not_properly_reset})"
    and "list_ex is_copy (impl_instrs i') \<Longrightarrow> p"
proof -
  from assms obtain q blks where
    b: "split_blocks False (body i) = Inr (q, blks)"
    by (auto simp: split_var_copies_impl_def split: sum.splits)
  from split_blocks_result[OF b] have q: "q = list_ex is_copy (concat (body i))"
    and s: "list_all copy_is_split (concat blks)"
    and c: "list_ex is_copy (concat blks) \<longrightarrow> list_ex is_copy (concat (body i))" by auto
  from assms b have p: "p = q" and body: "body i' = blks"
    by (auto simp: split_var_copies_impl_def nir_metadata_preserve_def split: if_splits)
  from p q show "p = list_ex is_copy (impl_instrs i)" by (simp add: impl_instrs_def)
  from s body show "list_all copy_is_split (impl_instrs i')" by (simp add: impl_instrs_def)
  from assms b show "valid_metadata i' =
           (if p then valid_metadata i \<inter> {Nir_metadata_block_index, Nir_metadata_dominance}
            else valid_metadata i - {Nir_metadata_not_properly_reset})"
    by (auto simp: split_var_copies_impl_def nir_metadata_preserve_def split: if_splits)
  from c p q body show "p" if "list_ex is_copy (impl_instrs i')"
    using that by (simp add: impl_instrs_def)
qed

lemma split_var_copies_impl_total:
  "list_all copy_well_typed (impl_instrs i) \<Longrightarrow> \<exists>p i'. split_var_copies_impl i = Inr (p, i')"
  using split_blocks_total[of "body i" False]
  by (auto simp: split_var_copies_impl_def impl_instrs_def)

lemma split_var_copies_impl_fixed:
  assumes "split_var_copies_impl i = Inr (p, i')"
  shows "split_var_copies_impl i' = Inr (list_ex is_copy (impl_instrs i'), i')"
proof -
  note r = split_var_copies_impl_result[OF assms]
  let ?c = "list_ex is_copy (impl_instrs i')"
  from r(2) have f: "split_blocks False (body i') = Inr (?c, body i')"
    using split_blocks_fixed[of "body i'" False] by (simp add: impl_instrs_def)
  show ?thesis
  proof (cases ?c)
    case True
    with r(4) have p by simp
    with r(3) have "valid_metadata i' \<inter> {Nir_metadata_block_index, Nir_metadata_dominance}
        = valid_metadata i'" by auto
    with f True show ?thesis
      by (simp add: split_var_copies_impl_def nir_metadata_preserve_def)
  next
    case False
    from r(3) have "valid_metadata i' - {Nir_metadata_not_properly_reset} = valid_metadata i'"
      by (auto split: if_splits)
    with f False show ?thesis
      by (simp add: split_var_copies_impl_def)
  qed
qed

lemma function_instrs_None: "impl f = None \<Longrightarrow> function_instrs f = []"
  by (simp add: function_instrs_def)

lemma function_instrs_Some: "impl f = Some i \<Longrightarrow> function_instrs f = impl_instrs i"
  by (simp add: function_instrs_def)

lemma function_instrs_update: "function_instrs (f\<lparr>impl := Some i\<rparr>) = impl_instrs i"
  by (simp add: function_instrs_def)

lemma split_functions_result:
  "split_functions p fs = Inr (p', out) \<Longrightarrow>
   p' = (p \<or> list_ex is_copy (concat (map function_instrs fs))) \<and>
   list_all copy_is_split (concat (map function_instrs out))"
proof (induction fs arbitrary: p p' out)
  case Nil
  then show ?case by simp
next
  case (Cons f fs)
  show ?case
  proof (cases "impl f")
    case None
    with Cons.prems obtain rest' where r: "split_functions p fs = Inr (p', rest')"
      and out: "out = f # rest'"
      by (auto split: sum.splits)
    from Cons.IH[OF r] None out show ?thesis by (simp add: function_instrs_None function_instrs_Some function_instrs_update)
  next
    case (Some i)
    with Cons.prems obtain q i' rest' where i: "split_var_copies_impl i = Inr (q, i')"
      and r: "split_functions (q \<or> p) fs = Inr (p', rest')"
      and out: "out = f\<lparr>impl := Some i'\<rparr> # rest'"
      by (auto split: sum.splits)
    from Cons.IH[OF r] split_var_copies_impl_result(1,2)[OF i] Some out show ?thesis
      by (auto simp: function_instrs_None function_instrs_Some function_instrs_update)
  qed
qed

lemma split_functions_total:
  "list_all copy_well_typed (concat (map function_instrs fs)) \<Longrightarrow>
   \<exists>p' out. split_functions p fs = Inr (p', out)"
proof (induction fs arbitrary: p)
  case Nil
  show ?case by simp
next
  case (Cons f fs)
  show ?case
  proof (cases "impl f")
    case None
    with Cons.prems have "list_all copy_well_typed (concat (map function_instrs fs))"
      by (simp add: function_instrs_None function_instrs_Some function_instrs_update)
    from Cons.IH[OF this, of p] None show ?thesis by auto
  next
    case (Some i)
    with Cons.prems have wi: "list_all copy_well_typed (impl_instrs i)"
      and wr: "list_all copy_well_typed (concat (map function_instrs fs))"
      by (simp_all add: function_instrs_None function_instrs_Some function_instrs_update)
    from split_var_copies_impl_total[OF wi] obtain q i' where
      i: "split_var_copies_impl i = Inr (q, i')" by auto
    from Cons.IH[OF wr, of "q \<or> p"] obtain p' rest' where
      "split_functions (q \<or> p) fs = Inr (p', rest')" by auto
    with i Some show ?thesis by simp
  qed
qed

lemma split_functions_fixed:
  "split_functions p fs = Inr (p', out) \<Longrightarrow>
   split_functions q out = Inr (q \<or> list_ex is_copy (concat (map function_instrs out)), out)"
proof (induction fs arbitrary: p p' q out)
  case Nil
  then show ?case by simp
next
  case (Cons f fs)
  show ?case
  proof (cases "impl f")
    case None
    with Cons.prems obtain rest' where r: "split_functions p fs = Inr (p', rest')"
      and out: "out = f # rest'"
      by (auto split: sum.splits)
    from Cons.IH[OF r, of q] None out show ?thesis by (simp add: function_instrs_None function_instrs_Some function_instrs_update)
  next
    case (Some i)
    with Cons.prems obtain c i' rest' where i: "split_var_copies_impl i = Inr (c, i')"
      and r: "split_functions (c \<or> p) fs = Inr (p', rest')"
      and out: "out = f\<lparr>impl := Some i'\<rparr> # rest'"
      by (auto split: sum.splits)
    note fx = split_var_copies_impl_fixed[OF i]
    from Cons.IH[OF r, of "list_ex is_copy (impl_instrs i') \<or> q"] fx out show ?thesis
      by (auto simp: function_instrs_None function_instrs_Some function_instrs_update)
  qed
qed

lemma no_copy_all_split: "\<not> list_ex is_copy is \<Longrightarrow> list_all copy_is_split is"
proof (induction "is")
  case Nil
  show ?case by simp
next
  case (Cons i "is")
  then show ?case by (cases i) auto
qed

lemma split_var_copies_impl_no_copy:
  assumes "split_var_copies_impl i = Inr (False, i')"
  shows "body i' = body i"
proof -
  from split_var_copies_impl_result(1)[OF assms]
  have nc: "\<not> list_ex is_copy (concat (body i))" by (simp add: impl_instrs_def)
  then have "split_blocks False (body i) = Inr (False, body i)"
    using split_blocks_fixed[OF no_copy_all_split, of "body i" False] by simp
  with assms show ?thesis
    by (auto simp: split_var_copies_impl_def)
qed

lemma nir_split_var_copies_total:
  "shader_well_typed sh \<Longrightarrow> \<exists>progress sh'. nir_split_var_copies sh = Inr (progress, sh')"
  using split_functions_total[of "shader_functions sh" False]
  by (auto simp: shader_well_typed_def shader_instrs_def nir_split_var_copies_def)

lemma nir_split_var_copies_result:
  assumes "nir_split_var_copies sh = Inr (progress, sh')"
  shows "progress = shader_has_copy sh" and "list_all copy_is_split (shader_instrs sh')"
proof -
  from assms obtain fs where
    fs: "split_functions False (shader_functions sh) = Inr (progress, fs)"
    and sh': "sh' = sh\<lparr>shader_functions := fs\<rparr>"
    by (auto simp: nir_split_var_copies_def split: sum.splits)
  from split_functions_result[OF fs] sh'
  show "progress = shader_has_copy sh" and "list_all copy_is_split (shader_instrs sh')"
    by (simp_all add: shader_has_copy_def shader_instrs_def)
qed

lemma emit_all_error: "emit_all rs = Inl e \<Longrightarrow> Inl e \<in> set rs"
proof (induction rs)
  case Nil
  then show ?case by simp
next
  case (Cons r rs)
  then show ?case by (cases r) (auto split: sum.splits)
qed

lemma split_deref_copy_instr_entry_assertion:
  "deref_type dst = deref_type src \<Longrightarrow>
   split_deref_copy_instr dst src \<noteq> Inl Assert_type_mismatch \<and>
   split_deref_copy_instr dst src \<noteq> Inl Invalid_deref"
proof (induction dst src rule: split_deref_copy_instr.induct)
  case (1 dst src)
  let ?t = "deref_type src"
  have "e = Assert_not_matrix_or_array" if r: "split_deref_copy_instr dst src = Inl e" for e
  proof (cases "glsl_type_is_vector_or_scalar ?t")
    case True
    with "1.prems" r show ?thesis by (simp add: split_deref_copy_instr.simps)
  next
    case leaf: False
    show ?thesis
    proof (cases "glsl_type_is_struct ?t")
      case True
      let ?f = "\<lambda>i. case nir_build_deref_struct dst i of
            None \<Rightarrow> Inl Invalid_deref
          | Some d \<Rightarrow>
             (case nir_build_deref_struct src i of
                None \<Rightarrow> Inl Invalid_deref
              | Some s \<Rightarrow> split_deref_copy_instr d s)"
      from r "1.prems" leaf True
      have "emit_all (map ?f [0 ..< glsl_get_length ?t]) = Inl e"
        by (subst (asm) split_deref_copy_instr.simps) simp
      from emit_all_error[OF this]
      obtain i where i: "i \<in> set [0 ..< glsl_get_length ?t]" and f: "?f i = Inl e"
        by auto
      from i True obtain u where u: "glsl_get_struct_field ?t i = Some u"
        using struct_field_some by auto
      let ?d = "dst\<lparr>deref_path := deref_path dst @ [Deref_struct i], deref_type := u\<rparr>"
      let ?s = "src\<lparr>deref_path := deref_path src @ [Deref_struct i], deref_type := u\<rparr>"
      have d: "nir_build_deref_struct dst i = Some ?d"
        and s: "nir_build_deref_struct src i = Some ?s"
        using u "1.prems" by (simp_all add: nir_build_deref_struct_def)
      from f d s have e: "split_deref_copy_instr ?d ?s = Inl e" by simp
      from "1.IH"(1)[OF _ leaf True i d s] "1.prems" e show ?thesis
        by (cases e) auto
    next
      case False
      show ?thesis
      proof (cases "glsl_type_is_matrix ?t \<or> glsl_type_is_array ?t")
        case ma: True
        then obtain u where u: "glsl_get_array_element ?t = Some u"
          using array_element_some by blast
        let ?d = "dst\<lparr>deref_path := deref_path dst @ [Deref_array_wildcard], deref_type := u\<rparr>"
        let ?s = "src\<lparr>deref_path := deref_path src @ [Deref_array_wildcard], deref_type := u\<rparr>"
        have d: "nir_build_deref_array_wildcard dst = Some ?d"
          and s: "nir_build_deref_array_wildcard src = Some ?s"
          using u "1.prems" by (simp_all add: nir_build_deref_array_wildcard_def)
        from r "1.prems" leaf False ma d s have e: "split_deref_copy_instr ?d ?s = Inl e"
          by (subst (asm) split_deref_copy_instr.simps) auto
        from "1.IH"(2)[OF _ leaf False _ d s] ma "1.prems" e show ?thesis
          by (cases e) auto
      next
        case False
        with r "1.prems" leaf \<open>\<not> glsl_type_is_struct ?t\<close> show ?thesis
          by (subst (asm) split_deref_copy_instr.simps) auto
      qed
    qed
  qed
  then show ?case by auto
qed


section \<open>The statements about copy splitting\<close>

text \<open>
  C1. For every function body, after the copy-splitting pass completes, every remaining
  copy's destination and source chains resolve to a vector or scalar type (the first
  of the two alternatives the statement allows: a chain that ends in a wildcard step
  resolves to such a type as well, since the recursion only stops at one). The pass
  completes on every program whose copies are well typed.
\<close>

theorem split_var_copies_leaf_invariant:
  assumes "shader_well_typed sh"
  shows "\<exists>progress sh'. nir_split_var_copies sh = Inr (progress, sh') \<and>
           (\<forall>dst src. Intrinsic_copy_deref dst src \<in> set (shader_instrs sh') \<longrightarrow>
              glsl_type_is_vector_or_scalar (deref_type dst) \<and>
              glsl_type_is_vector_or_scalar (deref_type src))"
proof -
  from nir_split_var_copies_total[OF assms] obtain progress sh' where
    r: "nir_split_var_copies sh = Inr (progress, sh')" by auto
  have "glsl_type_is_vector_or_scalar (deref_type dst) \<and>
        glsl_type_is_vector_or_scalar (deref_type src)"
    if "Intrinsic_copy_deref dst src \<in> set (shader_instrs sh')" for dst src
  proof -
    from nir_split_var_copies_result(2)[OF r] that
    have "copy_is_split (Intrinsic_copy_deref dst src)"
      unfolding list_all_iff by blast
    then show ?thesis by simp
  qed
  with r show ?thesis by blast
qed

theorem split_var_copies_leaf_invariant_witness:
  "shader_well_typed example_shader \<and>
   (\<exists>progress sh'. nir_split_var_copies example_shader = Inr (progress, sh') \<and>
      (\<forall>dst src. Intrinsic_copy_deref dst src \<in> set (shader_instrs sh') \<longrightarrow>
         glsl_type_is_vector_or_scalar (deref_type dst) \<and>
         glsl_type_is_vector_or_scalar (deref_type src)))"
proof -
  have h: "shader_well_typed example_shader" by code_simp
  from split_var_copies_leaf_invariant[OF h] h show ?thesis by blast
qed



text \<open>
  C6, as stated: running the pass on its own output reports no further progress. The
  pass takes every \<open>copy_deref\<close> it meets, whatever its type, removes it and emits the
  recursion's copies in its place, and sets \<open>progress\<close>. On the example the first run
  gives two copies of vector and scalar type; the second run removes and emits each of
  them again and returns true.
\<close>

theorem split_var_copies_second_run_progress:
  "nir_split_var_copies example_shader = Inr (True, example_shader_split) \<and>
   nir_split_var_copies example_shader_split = Inr (True, example_shader_split)"
  by code_simp

text \<open>
  C6, amended: running the pass on its own output gives that output back unchanged
  (instruction lists and validity flags), and the flag it returns is true exactly when
  the output holds at least one copy.
\<close>

theorem split_var_copies_fixed_point:
  assumes "nir_split_var_copies sh = Inr (progress, sh')"
  shows "nir_split_var_copies sh' = Inr (shader_has_copy sh', sh')"
proof -
  from assms obtain fs where
    fs: "split_functions False (shader_functions sh) = Inr (progress, fs)"
    and sh': "sh' = sh\<lparr>shader_functions := fs\<rparr>"
    by (auto simp: nir_split_var_copies_def split: sum.splits)
  from split_functions_fixed[OF fs, of False] sh' show ?thesis
    by (simp add: nir_split_var_copies_def shader_has_copy_def shader_instrs_def)
qed

theorem split_var_copies_fixed_point_witness:
  "nir_split_var_copies example_shader = Inr (True, example_shader_split) \<and>
   nir_split_var_copies example_shader_split =
     Inr (shader_has_copy example_shader_split, example_shader_split)"
proof -
  have h: "nir_split_var_copies example_shader = Inr (True, example_shader_split)"
    by code_simp
  from split_var_copies_fixed_point[OF h] h show ?thesis by simp
qed

text \<open>
  C7, as stated: when nothing was split the pass sets the debug-only bit. The branch
  taken without progress removes \<open>not_properly_reset\<close> from the flags: on a body
  without copies whose bit is set, the bit is clear after the run.
\<close>

theorem split_var_copies_clears_debug_bit:
  "split_var_copies_impl no_copy_impl = Inr (False, no_copy_impl_after) \<and>
   Nir_metadata_not_properly_reset \<in> valid_metadata no_copy_impl \<and>
   Nir_metadata_not_properly_reset \<notin> valid_metadata no_copy_impl_after"
  by code_simp

text \<open>
  C7, amended, for the copy-splitting pass: a run that reports progress keeps of the
  validity flags exactly block index and dominance, each with the value it had, so
  both remain true where they were true; a run that reports no progress leaves the
  instructions as they were and changes the flags only by clearing the debug-only
  \<open>not_properly_reset\<close> bit.
\<close>

theorem split_var_copies_metadata:
  assumes "split_var_copies_impl i = Inr (progress, i')"
  shows "(progress \<longrightarrow>
            valid_metadata i' =
              valid_metadata i \<inter> {Nir_metadata_block_index, Nir_metadata_dominance} \<and>
            (Nir_metadata_block_index \<in> valid_metadata i' \<longleftrightarrow>
               Nir_metadata_block_index \<in> valid_metadata i) \<and>
            (Nir_metadata_dominance \<in> valid_metadata i' \<longleftrightarrow>
               Nir_metadata_dominance \<in> valid_metadata i)) \<and>
         (\<not> progress \<longrightarrow>
            valid_metadata i' = valid_metadata i - {Nir_metadata_not_properly_reset} \<and>
            body i' = body i)"
proof (cases progress)
  case True
  with split_var_copies_impl_result(3)[OF assms] show ?thesis by auto
next
  case False
  with split_var_copies_impl_result(3)[OF assms] split_var_copies_impl_no_copy[of i i'] assms
  show ?thesis by auto
qed

theorem split_var_copies_metadata_witness:
  "split_var_copies_impl some_copy_impl = Inr (True, some_copy_impl_after) \<and>
   Nir_metadata_block_index \<in> valid_metadata some_copy_impl \<and>
   Nir_metadata_block_index \<in> valid_metadata some_copy_impl_after \<and>
   Nir_metadata_dominance \<in> valid_metadata some_copy_impl \<and>
   Nir_metadata_dominance \<in> valid_metadata some_copy_impl_after \<and>
   split_var_copies_impl no_copy_impl = Inr (False, no_copy_impl_after) \<and>
   valid_metadata no_copy_impl_after =
     valid_metadata no_copy_impl - {Nir_metadata_not_properly_reset} \<and>
   body no_copy_impl_after = body no_copy_impl"
proof -
  have h1: "split_var_copies_impl some_copy_impl = Inr (True, some_copy_impl_after)"
    by code_simp
  have h2: "split_var_copies_impl no_copy_impl = Inr (False, no_copy_impl_after)"
    by code_simp
  have b: "Nir_metadata_block_index \<in> valid_metadata some_copy_impl"
    "Nir_metadata_dominance \<in> valid_metadata some_copy_impl"
    by (simp_all add: some_copy_impl_def)
  from split_var_copies_metadata[OF h1] b
  have c1: "Nir_metadata_block_index \<in> valid_metadata some_copy_impl_after"
    "Nir_metadata_dominance \<in> valid_metadata some_copy_impl_after" by simp_all
  from split_var_copies_metadata[OF h2]
  have c2: "valid_metadata no_copy_impl_after =
     valid_metadata no_copy_impl - {Nir_metadata_not_properly_reset}"
    "body no_copy_impl_after = body no_copy_impl" by simp_all
  from h1 h2 b c1 c2 show ?thesis by blast
qed

text \<open>
  C10. For a root copy whose two chains resolve to the same type, the entry assertion
  holds at every invocation of the recursion; when that type is built from the five
  kinds scalar, vector, matrix, array and struct, the assertion of the last branch
  holds as well, and the recursion returns its list of copies.
\<close>

theorem split_deref_copy_instr_assertions_hold:
  assumes "deref_type dst = deref_type src"
  shows "split_deref_copy_instr dst src \<noteq> Inl Assert_type_mismatch \<and>
         (is_data_type (deref_type src) \<longrightarrow>
            split_deref_copy_instr dst src \<noteq> Inl Assert_not_matrix_or_array \<and>
            (\<exists>out. split_deref_copy_instr dst src = Inr out))"
  using split_deref_copy_instr_entry_assertion[OF assms]
    split_deref_copy_instr_total[OF assms] by auto

theorem split_deref_copy_instr_assertions_hold_witness:
  "deref_type example_dst = deref_type example_src \<and>
   is_data_type (deref_type example_src) \<and>
   split_deref_copy_instr example_dst example_src \<noteq> Inl Assert_type_mismatch \<and>
   split_deref_copy_instr example_dst example_src \<noteq> Inl Assert_not_matrix_or_array \<and>
   (\<exists>out. split_deref_copy_instr example_dst example_src = Inr out)"
proof -
  have h1: "deref_type example_dst = deref_type example_src"
    by (simp add: example_dst_def example_src_def nir_build_deref_var_def)
  have h2: "is_data_type (deref_type example_src)"
    by (simp add: example_src_def nir_build_deref_var_def example_struct_def)
  from split_deref_copy_instr_assertions_hold[OF h1] h1 h2 show ?thesis by blast
qed


section \<open>Subroutine lowering (lower\_subroutine.cpp)\<close>

subsection \<open>Instructions\<close>

record ir_variable =
  ir_var_name :: string
  ir_var_type :: glsl_type

datatype ir_expression_operation =
    Ir_unop_subroutine_to_int
  | Ir_binop_equal

datatype ir_rvalue =
    Ir_constant int
  | Ir_dereference_variable ir_variable
  | Ir_dereference_array ir_variable ir_rvalue
  | Ir_expression ir_expression_operation "ir_rvalue list"

text \<open>
  The destination of a call's return value is an object of its own: two calls must not
  hold the same one. The object's identity is its address, \<open>ir_deref_id\<close>; the type a
  destination resolves to is the type of its variable.
\<close>

type_synonym obj_id = nat

record ir_dereference_variable =
  ir_deref_id :: obj_id
  ir_deref_var :: ir_variable

record ir_function_signature =
  sig_function_name :: string
  sig_parameter_types :: "glsl_type list"

text \<open>
  A function of the registry with the interface types it declares
  (\<open>num_subroutine_types\<close> is the length of the list).
\<close>

record ir_function =
  ir_function_name :: string
  subroutine_types :: "glsl_type list"

text \<open>
  A call: \<open>sub_var\<close> is set on an indirect call only; \<open>return_deref\<close> is absent on a
  call that returns nothing; \<open>callee\<close> is the signature pointer handed to the
  constructor.
\<close>

record ir_call =
  callee :: "ir_function_signature option"
  return_deref :: "ir_dereference_variable option"
  actual_parameters :: "ir_rvalue list"
  sub_var :: "ir_variable option"
  array_idx :: "ir_rvalue option"

datatype ir_instruction =
    Ir_call ir_call
  | Ir_if ir_rvalue "ir_instruction list" "ir_instruction list"
  | Ir_other nat

text \<open>The registry: \<open>num_subroutines\<close> is the length of \<open>subroutines\<close>.\<close>

record mesa_glsl_parse_state =
  subroutines :: "ir_function list"

record lower_subroutine_visitor =
  visitor_progress :: bool
  visitor_state :: mesa_glsl_parse_state

datatype lower_error = Null_pointer_dereference

text \<open>
  The lookup of the overload whose parameters match the call's arguments exactly is a
  method of the candidate, defined outside these sources; the pass is modelled for any
  such lookup, which is the first argument of every function below.
\<close>

type_synonym exact_matching_signature =
  "ir_function \<Rightarrow> ir_rvalue list \<Rightarrow> ir_function_signature option"

subsection \<open>The builder's helpers\<close>

definition subr_to_int :: "ir_rvalue \<Rightarrow> ir_rvalue" where
  "subr_to_int a = Ir_expression Ir_unop_subroutine_to_int [a]"

definition equal_rvalue :: "ir_rvalue \<Rightarrow> ir_rvalue \<Rightarrow> ir_rvalue" where
  "equal_rvalue a b = Ir_expression Ir_binop_equal [a, b]"

text \<open>
  Modelled from the spec: \<open>if_tree\<close> is defined in ir\_builder.cpp, which is not among
  the sources. \<open>Conditional(cond, then_branch, else_branch)\<close>: with two arguments the
  else branch is empty, with three it holds the given conditional.
\<close>

definition if_tree :: "ir_rvalue \<Rightarrow> ir_instruction \<Rightarrow> ir_instruction" where
  "if_tree condition then_branch = Ir_if condition [then_branch] []"

definition if_tree_else ::
  "ir_rvalue \<Rightarrow> ir_instruction \<Rightarrow> ir_instruction \<Rightarrow> ir_instruction" where
  "if_tree_else condition then_branch else_branch =
     Ir_if condition [then_branch] [else_branch]"

text \<open>
  Modelled from the spec: \<open>clone\<close> of a return destination is defined in
  ir\_clone.cpp, which is not among the sources. It constructs an independent
  destination of the same variable at the next free address.
\<close>

definition clone_deref ::
  "obj_id \<Rightarrow> ir_dereference_variable \<Rightarrow> ir_dereference_variable \<times> obj_id" where
  "clone_deref next d = (\<lparr>ir_deref_id = next, ir_deref_var = ir_deref_var d\<rparr>, Suc next)"

text \<open>
  Modelled from the spec: the constructor of \<open>ir_call\<close> is defined in ir.h, which is
  not among the sources. \<open>Call(callee, args, return_dest)\<close>: the new call holds the
  three arguments as given and is a direct call.
\<close>

definition new_ir_call ::
  "ir_function_signature option \<Rightarrow> ir_dereference_variable option \<Rightarrow> ir_rvalue list \<Rightarrow> ir_call"
  where
  "new_ir_call sub_sig rd params =
     \<lparr>callee = sub_sig, return_deref = rd, actual_parameters = params,
      sub_var = None, array_idx = None\<rparr>"

subsection \<open>visit\_leave\<close>

text \<open>The inner loop over the interface types of a candidate.\<close>

definition is_compat :: "ir_variable \<Rightarrow> ir_function \<Rightarrow> bool" where
  "is_compat sv fn = list_ex (\<lambda>t. without_array (ir_var_type sv) = t) (subroutine_types fn)"

text \<open>The value compared in every branch: the bound variable, indexed if the call is.\<close>

definition bound_value :: "ir_call \<Rightarrow> ir_variable \<Rightarrow> ir_rvalue" where
  "bound_value ir sv =
     (case array_idx ir of
        Some idx \<Rightarrow> Ir_dereference_array sv idx
      | None \<Rightarrow> Ir_dereference_variable sv)"

definition branch_cond :: "ir_call \<Rightarrow> ir_variable \<Rightarrow> nat \<Rightarrow> ir_rvalue" where
  "branch_cond ir sv s = equal_rvalue (subr_to_int (bound_value ir sv)) (Ir_constant (int s))"

text \<open>
  The variables the outer loop updates: the ladder built so far, the destination the
  next call will get, and the next free address. Of the objects the loop allocates
  only the clones of the destination take an address here; constants, dereferences of
  the bound variable, calls and conditionals are values, since nothing below depends
  on their identity.
\<close>

record ladder_state =
  last_branch :: "ir_instruction option"
  cur_return_deref :: "ir_dereference_variable option"
  next_id :: obj_id

text \<open>
  One turn of the outer loop, for index \<open>s\<close>. The destination is cloned after the
  branch is built whenever \<open>s > 0\<close>, whether or not the call has one: cloning through
  the null pointer of a call without destination is the error.
\<close>

definition ladder_step ::
  "exact_matching_signature \<Rightarrow> mesa_glsl_parse_state \<Rightarrow> ir_variable \<Rightarrow> ir_call \<Rightarrow> nat \<Rightarrow>
   ladder_state \<Rightarrow> lower_error + ladder_state" where
  "ladder_step ems st sv ir s ls =
     (let fn = subroutines st ! s in
      if \<not> is_compat sv fn then Inr ls
      else
        let sub_sig = ems fn (actual_parameters ir);
            new_call = new_ir_call sub_sig (cur_return_deref ls) (actual_parameters ir);
            branch = (case last_branch ls of
                        None \<Rightarrow> if_tree (branch_cond ir sv s) (Ir_call new_call)
                      | Some lb \<Rightarrow> if_tree_else (branch_cond ir sv s) (Ir_call new_call) lb)
        in if 0 < s then
             (case cur_return_deref ls of
                None \<Rightarrow> Inl Null_pointer_dereference
              | Some d \<Rightarrow>
                 (let (d', next') = clone_deref (next_id ls) d
                  in Inr \<lparr>last_branch = Some branch, cur_return_deref = Some d',
                          next_id = next'\<rparr>))
           else Inr (ls\<lparr>last_branch := Some branch\<rparr>))"

text \<open>
  The outer loop, \<open>s\<close> from \<open>num_subroutines - 1\<close> down to \<open>0\<close>: the third argument
  counts the indices still to visit.
\<close>

fun ladder_loop ::
  "exact_matching_signature \<Rightarrow> mesa_glsl_parse_state \<Rightarrow> ir_variable \<Rightarrow> ir_call \<Rightarrow> nat \<Rightarrow>
   ladder_state \<Rightarrow> lower_error + ladder_state" where
  "ladder_loop ems st sv ir 0 ls = Inr ls"
| "ladder_loop ems st sv ir (Suc s) ls =
     (case ladder_step ems st sv ir s ls of
        Inl e \<Rightarrow> Inl e
      | Inr ls' \<Rightarrow> ladder_loop ems st sv ir s ls')"

text \<open>
  \<open>visit_leave\<close> returns the visitor, the next free address and the instructions that
  stand where the call stood: the call itself when it is direct; for an indirect call
  the ladder inserted before it, if there is one, the call being removed.
\<close>

definition visit_leave ::
  "exact_matching_signature \<Rightarrow> lower_subroutine_visitor \<Rightarrow> obj_id \<Rightarrow> ir_call \<Rightarrow>
   lower_error + (lower_subroutine_visitor \<times> obj_id \<times> ir_instruction list)" where
  "visit_leave ems v h ir =
     (case sub_var ir of
        None \<Rightarrow> Inr (v, h, [Ir_call ir])
      | Some sv \<Rightarrow>
         (case ladder_loop ems (visitor_state v) sv ir
                 (length (subroutines (visitor_state v)))
                 \<lparr>last_branch = None, cur_return_deref = return_deref ir, next_id = h\<rparr> of
            Inl e \<Rightarrow> Inl e
          | Inr ls \<Rightarrow>
             Inr (v, next_id ls,
                  (case last_branch ls of None \<Rightarrow> [] | Some lb \<Rightarrow> [lb]))))"

subsection \<open>lower\_subroutine\<close>

text \<open>
  Modelled from the spec: \<open>visit_list_elements\<close> and the traversal of the hierarchical
  visitor are defined outside these sources. The pass walks every instruction list in
  program order, the branches of a conditional included, and calls \<open>visit_leave\<close> on
  every call; an instruction the visit inserts is not visited.
\<close>

fun visit_instruction ::
  "exact_matching_signature \<Rightarrow> lower_subroutine_visitor \<Rightarrow> obj_id \<Rightarrow> ir_instruction \<Rightarrow>
   lower_error + (lower_subroutine_visitor \<times> obj_id \<times> ir_instruction list)"
and visit_list_elements ::
  "exact_matching_signature \<Rightarrow> lower_subroutine_visitor \<Rightarrow> obj_id \<Rightarrow> ir_instruction list \<Rightarrow>
   lower_error + (lower_subroutine_visitor \<times> obj_id \<times> ir_instruction list)" where
  "visit_instruction ems v h (Ir_call ir) = visit_leave ems v h ir"
| "visit_instruction ems v h (Ir_if c thn els) =
     (case visit_list_elements ems v h thn of
        Inl e \<Rightarrow> Inl e
      | Inr (v1, h1, thn') \<Rightarrow>
         (case visit_list_elements ems v1 h1 els of
            Inl e \<Rightarrow> Inl e
          | Inr (v2, h2, els') \<Rightarrow> Inr (v2, h2, [Ir_if c thn' els'])))"
| "visit_instruction ems v h (Ir_other k) = Inr (v, h, [Ir_other k])"
| "visit_list_elements ems v h [] = Inr (v, h, [])"
| "visit_list_elements ems v h (i # rest) =
     (case visit_instruction ems v h i of
        Inl e \<Rightarrow> Inl e
      | Inr (v1, h1, out) \<Rightarrow>
         (case visit_list_elements ems v1 h1 rest of
            Inl e \<Rightarrow> Inl e
          | Inr (v2, h2, rest') \<Rightarrow> Inr (v2, h2, out @ rest')))"

definition lower_subroutine ::
  "exact_matching_signature \<Rightarrow> obj_id \<Rightarrow> ir_instruction list \<Rightarrow> mesa_glsl_parse_state \<Rightarrow>
   lower_error + (bool \<times> obj_id \<times> ir_instruction list)" where
  "lower_subroutine ems h instructions st =
     (let v = \<lparr>visitor_progress = False, visitor_state = st\<rparr> in
      case visit_list_elements ems v h instructions of
        Inl e \<Rightarrow> Inl e
      | Inr (v', h', instructions') \<Rightarrow> Inr (visitor_progress v', h', instructions'))"

subsection \<open>The loop with the call constructor as a parameter\<close>

text \<open>
  The constructor of \<open>ir_call\<close> is outside the sources, and \<open>new_ir_call\<close> above stands
  for it on the word of the spec, which knows no call without callee. What the loop
  does with a lookup that found no signature is therefore stated for any constructor:
  it is given the signature pointer, the destination and the argument list, which it
  receives by address, and either fails or returns the call it constructed together
  with the argument list as it leaves it. The lookup of the next candidate reads the
  list as the constructor left it. Everything else is the loop above, line by line.
\<close>

type_synonym call_constructor =
  "ir_function_signature option \<Rightarrow> ir_dereference_variable option \<Rightarrow> ir_rvalue list \<Rightarrow>
   lower_error + (ir_call \<times> ir_rvalue list)"

definition ladder_step_with ::
  "call_constructor \<Rightarrow> exact_matching_signature \<Rightarrow> mesa_glsl_parse_state \<Rightarrow> ir_variable \<Rightarrow>
   ir_call \<Rightarrow> nat \<Rightarrow> ladder_state \<times> ir_rvalue list \<Rightarrow>
   lower_error + (ladder_state \<times> ir_rvalue list)" where
  "ladder_step_with ctor ems st sv ir s lsp =
     (let (ls, params) = lsp; fn = subroutines st ! s in
      if \<not> is_compat sv fn then Inr (ls, params)
      else
        let sub_sig = ems fn params in
        case ctor sub_sig (cur_return_deref ls) params of
          Inl e \<Rightarrow> Inl e
        | Inr (new_call, params') \<Rightarrow>
           (let branch = (case last_branch ls of
                            None \<Rightarrow> if_tree (branch_cond ir sv s) (Ir_call new_call)
                          | Some lb \<Rightarrow>
                             if_tree_else (branch_cond ir sv s) (Ir_call new_call) lb)
            in if 0 < s then
                 (case cur_return_deref ls of
                    None \<Rightarrow> Inl Null_pointer_dereference
                  | Some d \<Rightarrow>
                     (let (d', next') = clone_deref (next_id ls) d
                      in Inr (\<lparr>last_branch = Some branch, cur_return_deref = Some d',
                               next_id = next'\<rparr>, params')))
               else Inr (ls\<lparr>last_branch := Some branch\<rparr>, params')))"

fun ladder_loop_with ::
  "call_constructor \<Rightarrow> exact_matching_signature \<Rightarrow> mesa_glsl_parse_state \<Rightarrow> ir_variable \<Rightarrow>
   ir_call \<Rightarrow> nat \<Rightarrow> ladder_state \<times> ir_rvalue list \<Rightarrow>
   lower_error + (ladder_state \<times> ir_rvalue list)" where
  "ladder_loop_with ctor ems st sv ir 0 lsp = Inr lsp"
| "ladder_loop_with ctor ems st sv ir (Suc s) lsp =
     (case ladder_step_with ctor ems st sv ir s lsp of
        Inl e \<Rightarrow> Inl e
      | Inr lsp' \<Rightarrow> ladder_loop_with ctor ems st sv ir s lsp')"

definition visit_leave_with ::
  "call_constructor \<Rightarrow> exact_matching_signature \<Rightarrow> lower_subroutine_visitor \<Rightarrow> obj_id \<Rightarrow>
   ir_call \<Rightarrow> lower_error + (lower_subroutine_visitor \<times> obj_id \<times> ir_instruction list)" where
  "visit_leave_with ctor ems v h ir =
     (case sub_var ir of
        None \<Rightarrow> Inr (v, h, [Ir_call ir])
      | Some sv \<Rightarrow>
         (case ladder_loop_with ctor ems (visitor_state v) sv ir
                 (length (subroutines (visitor_state v)))
                 (\<lparr>last_branch = None, cur_return_deref = return_deref ir, next_id = h\<rparr>,
                  actual_parameters ir) of
            Inl e \<Rightarrow> Inl e
          | Inr (ls, params) \<Rightarrow>
             Inr (v, next_id ls,
                  (case last_branch ls of None \<Rightarrow> [] | Some lb \<Rightarrow> [lb]))))"

subsection \<open>Ladders\<close>

text \<open>
  The registry indices whose candidate declares the type of the bound variable, arrays
  stripped, in increasing order; those below \<open>k\<close> are the ones the last \<open>k\<close> turns of
  the loop visit.
\<close>

definition eligible_below :: "mesa_glsl_parse_state \<Rightarrow> ir_variable \<Rightarrow> nat \<Rightarrow> nat list" where
  "eligible_below st sv k = filter (\<lambda>s. is_compat sv (subroutines st ! s)) [0 ..< k]"

definition eligible :: "mesa_glsl_parse_state \<Rightarrow> ir_variable \<Rightarrow> nat list" where
  "eligible st sv = eligible_below st sv (length (subroutines st))"

text \<open>
  The ladder with the given branches, outermost first: each branch is the condition
  tested and the call made when it holds; the next branch is the else branch.
\<close>

fun ladder_of :: "(ir_rvalue \<times> ir_call) list \<Rightarrow> ir_instruction list" where
  "ladder_of [] = []"
| "ladder_of ((c, k) # bs) = [Ir_if c [Ir_call k] (ladder_of bs)]"

definition opt_list :: "'a option \<Rightarrow> 'a list" where
  "opt_list x = (case x of None \<Rightarrow> [] | Some y \<Rightarrow> [y])"

text \<open>
  The branch the loop builds for index \<open>s\<close> when the destination at hand is \<open>rd\<close>.
\<close>

definition branch_for ::
  "exact_matching_signature \<Rightarrow> mesa_glsl_parse_state \<Rightarrow> ir_variable \<Rightarrow> ir_call \<Rightarrow> nat \<Rightarrow>
   ir_dereference_variable option \<Rightarrow> ir_rvalue \<times> ir_call" where
  "branch_for ems st sv ir s rd =
     (branch_cond ir sv s,
      new_ir_call (ems (subroutines st ! s) (actual_parameters ir)) rd (actual_parameters ir))"

text \<open>The branches of a ladder, outermost first.\<close>

fun ladder_branches :: "ir_instruction list \<Rightarrow> (ir_rvalue \<times> ir_call) list" where
  "ladder_branches [Ir_if c [Ir_call k] els] = (c, k) # ladder_branches els"
| "ladder_branches instrs = []"

text \<open>
  The calls an instruction makes when the bound variable holds the index \<open>b\<close>: the
  condition \<open>subr_to_int(var) == s\<close> holds exactly when \<open>s\<close> is \<open>b\<close>.
\<close>

fun tested_index :: "ir_rvalue \<Rightarrow> int option" where
  "tested_index (Ir_expression Ir_binop_equal
     [Ir_expression Ir_unop_subroutine_to_int [a], Ir_constant s]) = Some s"
| "tested_index c = None"

fun executed_calls :: "int \<Rightarrow> ir_instruction \<Rightarrow> ir_call list" where
  "executed_calls b (Ir_call k) = [k]"
| "executed_calls b (Ir_if c thn els) =
     (if tested_index c = Some b then concat (map (executed_calls b) thn)
      else concat (map (executed_calls b) els))"
| "executed_calls b (Ir_other k) = []"

text \<open>
  An indirect call without return destination that has an eligible candidate at an
  index above zero: the call on which the loop clones through a null pointer.
\<close>

definition clones_null :: "mesa_glsl_parse_state \<Rightarrow> ir_call \<Rightarrow> bool" where
  "clones_null st ir =
     (case sub_var ir of
        None \<Rightarrow> False
      | Some sv \<Rightarrow> return_deref ir = None \<and> list_ex (\<lambda>s. 0 < s) (eligible st sv))"

text \<open>The index the outermost condition of a ladder tests.\<close>

definition outermost_test :: "ir_instruction list \<Rightarrow> int option" where
  "outermost_test out =
     (case ladder_branches out of [] \<Rightarrow> None | (c, k) # bs \<Rightarrow> tested_index c)"

text \<open>An instruction that is, or holds in one of its branches, an indirect call.\<close>

fun has_indirect_call :: "ir_instruction \<Rightarrow> bool" where
  "has_indirect_call (Ir_call ir) = (sub_var ir \<noteq> None)"
| "has_indirect_call (Ir_if c thn els) =
     (list_ex has_indirect_call thn \<or> list_ex has_indirect_call els)"
| "has_indirect_call (Ir_other k) = False"

subsection \<open>Example: candidates 1, 3 and 4 of five declare the interface type\<close>

definition type_T :: glsl_type where
  "type_T = Subroutine ''T''"

definition type_U :: glsl_type where
  "type_U = Subroutine ''U''"

definition example_state :: mesa_glsl_parse_state where
  "example_state =
     \<lparr>subroutines =
        [\<lparr>ir_function_name = ''f0'', subroutine_types = [type_U]\<rparr>,
         \<lparr>ir_function_name = ''f1'', subroutine_types = [type_T]\<rparr>,
         \<lparr>ir_function_name = ''f2'', subroutine_types = [type_U]\<rparr>,
         \<lparr>ir_function_name = ''f3'', subroutine_types = [type_U, type_T]\<rparr>,
         \<lparr>ir_function_name = ''f4'', subroutine_types = [type_T]\<rparr>]\<rparr>"

definition example_visitor :: lower_subroutine_visitor where
  "example_visitor = \<lparr>visitor_progress = False, visitor_state = example_state\<rparr>"

text \<open>The bound variable is an array of two subroutine uniforms of type \<open>T\<close>.\<close>

definition example_sub_var :: ir_variable where
  "example_sub_var = \<lparr>ir_var_name = ''selector'', ir_var_type = Array type_T 2\<rparr>"

definition example_ret :: ir_dereference_variable where
  "example_ret =
     \<lparr>ir_deref_id = 7, ir_deref_var = \<lparr>ir_var_name = ''ret'', ir_var_type = Vector 4\<rparr>\<rparr>"

text \<open>Every candidate has the one signature \<open>(float)\<close>, found for a single argument.\<close>

definition example_lookup :: exact_matching_signature where
  "example_lookup fn params =
     (if length params = 1
      then Some \<lparr>sig_function_name = ir_function_name fn, sig_parameter_types = [Scalar]\<rparr>
      else None)"

definition example_call :: ir_call where
  "example_call =
     \<lparr>callee = None, return_deref = Some example_ret,
      actual_parameters = [Ir_constant 5],
      sub_var = Some example_sub_var, array_idx = Some (Ir_constant 1)\<rparr>"

definition example_void_call :: ir_call where
  "example_void_call = example_call\<lparr>return_deref := None\<rparr>"

definition example_new_call :: "string \<Rightarrow> obj_id \<Rightarrow> ir_call" where
  "example_new_call nm a =
     \<lparr>callee = Some \<lparr>sig_function_name = nm, sig_parameter_types = [Scalar]\<rparr>,
      return_deref = Some (example_ret\<lparr>ir_deref_id := a\<rparr>),
      actual_parameters = [Ir_constant 5], sub_var = None, array_idx = None\<rparr>"

text \<open>
  The ladder of the example call, with the next free address 10 when the pass starts:
  the test for index 1 is outermost, the test for index 4 innermost; the call for
  index 4 has the destination of the original call, at address 7.
\<close>

definition example_ladder :: ir_instruction where
  "example_ladder =
     Ir_if (branch_cond example_call example_sub_var 1) [Ir_call (example_new_call ''f1'' 11)]
       [Ir_if (branch_cond example_call example_sub_var 3) [Ir_call (example_new_call ''f3'' 10)]
         [Ir_if (branch_cond example_call example_sub_var 4) [Ir_call (example_new_call ''f4'' 7)]
           []]]"

text \<open>A lookup that finds no signature in candidate 3, and the ladder it leads to.\<close>

definition example_partial_lookup :: exact_matching_signature where
  "example_partial_lookup fn params =
     (if ir_function_name fn = ''f3'' then None else example_lookup fn params)"

definition example_ladder_null :: ir_instruction where
  "example_ladder_null =
     Ir_if (branch_cond example_call example_sub_var 1) [Ir_call (example_new_call ''f1'' 11)]
       [Ir_if (branch_cond example_call example_sub_var 3)
          [Ir_call ((example_new_call ''f3'' 10)\<lparr>callee := None\<rparr>)]
         [Ir_if (branch_cond example_call example_sub_var 4) [Ir_call (example_new_call ''f4'' 7)]
           []]]"

text \<open>
  Two constructors: the one of the model above, which holds what it is given and leaves
  the argument list alone, and one that fails on a null signature.
\<close>

definition stores_arguments :: call_constructor where
  "stores_arguments sub_sig rd params = Inr (new_ir_call sub_sig rd params, params)"

definition rejects_null_signature :: call_constructor where
  "rejects_null_signature sub_sig rd params =
     (case sub_sig of
        None \<Rightarrow> Inl Null_pointer_dereference
      | Some sg \<Rightarrow> Inr (new_ir_call sub_sig rd params, params))"

text \<open>The example call, and the call without return destination, among other instructions.\<close>

definition example_instructions :: "ir_instruction list" where
  "example_instructions = [Ir_other 0, Ir_call example_call, Ir_other 1]"

definition example_void_instructions :: "ir_instruction list" where
  "example_void_instructions = [Ir_other 0, Ir_call example_void_call, Ir_other 1]"


section \<open>Properties of subroutine lowering\<close>

subsection \<open>The loop over the registry\<close>

lemma eligible_below_Suc:
  "eligible_below st sv (Suc k) =
     eligible_below st sv k @ (if is_compat sv (subroutines st ! k) then [k] else [])"
  by (simp add: eligible_below_def)

lemma ladder_branches_ladder_of: "ladder_branches (ladder_of bs) = bs"
  by (induction bs) auto

lemma ladder_step_skip:
  "\<not> is_compat sv (subroutines st ! s) \<Longrightarrow> ladder_step ems st sv ir s ls = Inr ls"
  by (simp add: ladder_step_def)

lemma ladder_step_branch:
  assumes "is_compat sv (subroutines st ! s)"
    and "ladder_step ems st sv ir s ls = Inr ls1"
    and "opt_list (last_branch ls) = ladder_of bs"
  shows "opt_list (last_branch ls1) =
           ladder_of (branch_for ems st sv ir s (cur_return_deref ls) # bs)"
proof -
  let ?call = "new_ir_call (ems (subroutines st ! s) (actual_parameters ir))
                 (cur_return_deref ls) (actual_parameters ir)"
  let ?branch = "case last_branch ls of
                   None \<Rightarrow> if_tree (branch_cond ir sv s) (Ir_call ?call)
                 | Some lb \<Rightarrow> if_tree_else (branch_cond ir sv s) (Ir_call ?call) lb"
  from assms(1,2) have lb: "last_branch ls1 = Some ?branch"
    by (auto simp: ladder_step_def Let_def clone_deref_def split: if_splits option.splits)
  from assms(3) have "?branch = Ir_if (branch_cond ir sv s) [Ir_call ?call] (ladder_of bs)"
    by (cases "last_branch ls") (simp_all add: opt_list_def if_tree_def if_tree_else_def)
  with lb show ?thesis by (simp add: opt_list_def branch_for_def)
qed

lemma ladder_loop_branches:
  assumes "ladder_loop ems st sv ir k ls = Inr ls'"
    and "opt_list (last_branch ls) = ladder_of bs"
  shows "\<exists>rds. length rds = length (eligible_below st sv k) \<and>
           opt_list (last_branch ls') =
             ladder_of (map2 (branch_for ems st sv ir) (eligible_below st sv k) rds @ bs)"
  using assms
proof (induction k arbitrary: ls bs)
  case 0
  then show ?case by (simp add: eligible_below_def)
next
  case (Suc k)
  from Suc.prems(1) obtain ls1 where
    step: "ladder_step ems st sv ir k ls = Inr ls1" and
    loop: "ladder_loop ems st sv ir k ls1 = Inr ls'"
    by (auto split: sum.splits)
  show ?case
  proof (cases "is_compat sv (subroutines st ! k)")
    case False
    with step have "ls1 = ls" by (simp add: ladder_step_skip)
    with Suc.IH[OF loop] Suc.prems(2) False show ?thesis
      by (simp add: eligible_below_Suc)
  next
    case True
    let ?b = "branch_for ems st sv ir k (cur_return_deref ls)"
    from ladder_step_branch[OF True step Suc.prems(2)]
    have "opt_list (last_branch ls1) = ladder_of (?b # bs)" .
    from Suc.IH[OF loop this] obtain rds where
      len: "length rds = length (eligible_below st sv k)" and
      lad: "opt_list (last_branch ls') =
              ladder_of (map2 (branch_for ems st sv ir) (eligible_below st sv k) rds @ ?b # bs)"
      by auto
    let ?rds = "rds @ [cur_return_deref ls]"
    from len True have "length ?rds = length (eligible_below st sv (Suc k))"
      by (simp add: eligible_below_Suc)
    moreover from len True
    have "map2 (branch_for ems st sv ir) (eligible_below st sv (Suc k)) ?rds @ bs =
          map2 (branch_for ems st sv ir) (eligible_below st sv k) rds @ ?b # bs"
      by (simp add: eligible_below_Suc)
    ultimately show ?thesis using lad by metis
  qed
qed

text \<open>When does the loop fail?\<close>

lemma ladder_loop_null:
  assumes "cur_return_deref ls = None"
  shows "(if list_ex (\<lambda>s. 0 < s) (eligible_below st sv k)
          then ladder_loop ems st sv ir k ls = Inl Null_pointer_dereference
          else \<exists>ls'. ladder_loop ems st sv ir k ls = Inr ls')"
  using assms
proof (induction k arbitrary: ls)
  case 0
  then show ?case by (simp add: eligible_below_def)
next
  case (Suc k)
  show ?case
  proof (cases "is_compat sv (subroutines st ! k)")
    case False
    with Suc.IH[OF Suc.prems] show ?thesis
      by (simp add: ladder_step_skip eligible_below_Suc)
  next
    case True
    show ?thesis
    proof (cases "0 < k")
      case True
      with \<open>is_compat sv (subroutines st ! k)\<close> Suc.prems show ?thesis
        by (simp add: ladder_step_def Let_def eligible_below_Suc)
    next
      case False
      then have k: "k = 0" by simp
      with \<open>is_compat sv (subroutines st ! k)\<close> show ?thesis
        by (simp add: ladder_step_def Let_def eligible_below_def)
    qed
  qed
qed

lemma ladder_step_some:
  assumes "cur_return_deref ls = Some d" and "is_compat sv (subroutines st ! s)"
  shows "\<exists>ls1. ladder_step ems st sv ir s ls = Inr ls1 \<and>
           cur_return_deref ls1 =
             Some (if 0 < s then \<lparr>ir_deref_id = next_id ls, ir_deref_var = ir_deref_var d\<rparr>
                   else d) \<and>
           next_id ls1 = (if 0 < s then Suc (next_id ls) else next_id ls)"
  using assms by (simp add: ladder_step_def Let_def clone_deref_def)

lemma ladder_loop_some:
  assumes "cur_return_deref ls = Some d"
  shows "\<exists>ls'. ladder_loop ems st sv ir k ls = Inr ls'"
  using assms
proof (induction k arbitrary: ls d)
  case 0
  show ?case by simp
next
  case (Suc k)
  have "\<exists>ls1 d1. ladder_step ems st sv ir k ls = Inr ls1 \<and> cur_return_deref ls1 = Some d1"
  proof (cases "is_compat sv (subroutines st ! k)")
    case False
    with Suc.prems show ?thesis by (simp add: ladder_step_skip)
  next
    case True
    from ladder_step_some[OF Suc.prems True, of ems ir] show ?thesis by blast
  qed
  then obtain ls1 d1 where step: "ladder_step ems st sv ir k ls = Inr ls1"
    and cur: "cur_return_deref ls1 = Some d1" by blast
  from Suc.IH[OF cur] step show ?case by simp
qed

lemma branch_for_dest [simp]: "return_deref (snd (branch_for ems st sv ir s rd)) = rd"
  by (simp add: branch_for_def new_ir_call_def)


subsection \<open>visit\_leave\<close>

lemma tested_index_branch_cond [simp]: "tested_index (branch_cond ir sv s) = Some (int s)"
  by (simp add: branch_cond_def equal_rvalue_def subr_to_int_def)

lemma eligible_set:
  "set (eligible st sv) =
     {s. s < length (subroutines st) \<and>
         without_array (ir_var_type sv) \<in> set (subroutine_types (subroutines st ! s))}"
  by (auto simp: eligible_def eligible_below_def is_compat_def list_ex_iff)

lemma eligible_sorted: "sorted (eligible st sv) \<and> distinct (eligible st sv)"
  by (simp add: eligible_def eligible_below_def sorted_wrt_filter)

lemma executed_ladder:
  "length el = length rds \<Longrightarrow> s \<in> set el \<Longrightarrow>
   \<exists>rd. concat (map (executed_calls (int s))
                      (ladder_of (map2 (branch_for ems st sv ir) el rds))) =
          [new_ir_call (ems (subroutines st ! s) (actual_parameters ir)) rd
                       (actual_parameters ir)]"
proof (induction el rds rule: list_induct2)
  case Nil
  then show ?case by simp
next
  case (Cons e el rd rds)
  show ?case
  proof (cases "e = s")
    case True
    then show ?thesis by (auto simp: branch_for_def)
  next
    case False
    with Cons.prems have "s \<in> set el" by simp
    from Cons.IH[OF this] False show ?thesis by (simp add: branch_for_def)
  qed
qed

lemma visit_leave_direct: "sub_var ir = None \<Longrightarrow> visit_leave ems v h ir = Inr (v, h, [Ir_call ir])"
  by (simp add: visit_leave_def)

lemma visit_leave_fails:
  "visit_leave ems v h ir = Inl Null_pointer_dereference \<longleftrightarrow> clones_null (visitor_state v) ir"
proof (cases "sub_var ir")
  case None
  then show ?thesis by (simp add: visit_leave_def clones_null_def)
next
  case (Some sv)
  let ?st = "visitor_state v"
  let ?ls = "\<lparr>last_branch = None, cur_return_deref = return_deref ir, next_id = h\<rparr>"
  show ?thesis
  proof (cases "return_deref ir")
    case None
    then have "cur_return_deref ?ls = None" by simp
    from ladder_loop_null[OF this, of ?st sv "length (subroutines ?st)" ems ir] Some None
    show ?thesis
      by (auto simp: visit_leave_def clones_null_def eligible_def split: if_splits)
  next
    case (Some d)
    then have "cur_return_deref ?ls = Some d" by simp
    from ladder_loop_some[OF this, of ems ?st sv ir "length (subroutines ?st)"]
      Some \<open>sub_var ir = Some sv\<close>
    show ?thesis
      by (auto simp: visit_leave_def clones_null_def)
  qed
qed

lemma visit_leave_total:
  "\<not> clones_null (visitor_state v) ir \<Longrightarrow> \<exists>h' out. visit_leave ems v h ir = Inr (v, h', out)"
proof -
  assume n: "\<not> clones_null (visitor_state v) ir"
  show ?thesis
  proof (cases "visit_leave ems v h ir")
    case (Inl e)
    then have "visit_leave ems v h ir = Inl Null_pointer_dereference" by (cases e) simp
    with n visit_leave_fails show ?thesis by blast
  next
    case (Inr r)
    then show ?thesis
      by (cases r) (auto simp: visit_leave_def split: option.splits sum.splits)
  qed
qed

lemma visit_leave_ladder:
  assumes "sub_var ir = Some sv" and "visit_leave ems v h ir = Inr (v', h', out)"
  shows "\<exists>rds. length rds = length (eligible (visitor_state v) sv) \<and>
           out = ladder_of (map2 (branch_for ems (visitor_state v) sv ir)
                                 (eligible (visitor_state v) sv) rds)"
proof -
  let ?st = "visitor_state v"
  let ?ls = "\<lparr>last_branch = None, cur_return_deref = return_deref ir, next_id = h\<rparr>"
  from assms obtain ls' where
    loop: "ladder_loop ems ?st sv ir (length (subroutines ?st)) ?ls = Inr ls'" and
    out: "out = opt_list (last_branch ls')"
    by (auto simp: visit_leave_def opt_list_def split: sum.splits)
  have "opt_list (last_branch ?ls) = ladder_of []" by (simp add: opt_list_def)
  from ladder_loop_branches[OF loop this] out show ?thesis
    by (simp add: eligible_def)
qed

lemma branches_of_map2:
  "length rds = length el \<Longrightarrow>
   map fst (map2 (branch_for ems st sv ir) el rds) = map (branch_cond ir sv) el \<and>
   map (callee \<circ> snd) (map2 (branch_for ems st sv ir) el rds) =
     map (\<lambda>s. ems (subroutines st ! s) (actual_parameters ir)) el \<and>
   map (return_deref \<circ> snd) (map2 (branch_for ems st sv ir) el rds) = rds"
proof (induction el rds rule: list_induct2')
  case (4 x xs y ys)
  then show ?case by (simp add: branch_for_def new_ir_call_def)
qed simp_all

lemma visit_leave_no_candidate:
  assumes "sub_var ir = Some sv" and "eligible (visitor_state v) sv = []"
  shows "visit_leave ems v h ir = Inr (v, h, [])"
proof -
  let ?ls = "\<lparr>last_branch = None, cur_return_deref = return_deref ir, next_id = h\<rparr>"
  have "ladder_loop ems (visitor_state v) sv ir k ls = Inr ls"
    if "eligible_below (visitor_state v) sv k = []" for k ls
    using that
  proof (induction k)
    case 0
    show ?case by simp
  next
    case (Suc k)
    then have "\<not> is_compat sv (subroutines (visitor_state v) ! k)"
      and "eligible_below (visitor_state v) sv k = []"
      by (auto simp: eligible_below_Suc split: if_splits)
    with Suc.IH show ?case by (simp add: ladder_step_skip)
  qed
  with assms show ?thesis by (simp add: visit_leave_def eligible_def)
qed

subsection \<open>The loop for any call constructor\<close>

lemma ladder_step_with_stores:
  "ladder_step_with stores_arguments ems st sv ir s (ls, actual_parameters ir) =
     (case ladder_step ems st sv ir s ls of
        Inl e \<Rightarrow> Inl e
      | Inr ls' \<Rightarrow> Inr (ls', actual_parameters ir))"
  by (simp add: ladder_step_with_def ladder_step_def stores_arguments_def Let_def
           split: option.splits prod.splits)

lemma ladder_loop_with_stores:
  "ladder_loop_with stores_arguments ems st sv ir k (ls, actual_parameters ir) =
     (case ladder_loop ems st sv ir k ls of
        Inl e \<Rightarrow> Inl e
      | Inr ls' \<Rightarrow> Inr (ls', actual_parameters ir))"
proof (induction k arbitrary: ls)
  case 0
  show ?case by simp
next
  case (Suc k)
  show ?case
  proof (cases "ladder_step ems st sv ir k ls")
    case (Inl e)
    then show ?thesis by (simp add: ladder_step_with_stores)
  next
    case (Inr ls1)
    with Suc.IH[of ls1] show ?thesis by (simp add: ladder_step_with_stores)
  qed
qed

lemma visit_leave_with_stores:
  "visit_leave_with stores_arguments ems v h ir = visit_leave ems v h ir"
  by (simp add: visit_leave_with_def visit_leave_def ladder_loop_with_stores
           split: option.splits sum.splits)

lemma ladder_step_with_skip:
  "\<not> is_compat sv (subroutines st ! s) \<Longrightarrow>
   ladder_step_with ctor ems st sv ir s (ls, ps) = Inr (ls, ps)"
  by (simp add: ladder_step_with_def)

lemma ladder_step_with_branch:
  assumes "is_compat sv (subroutines st ! s)"
    and "ladder_step_with ctor ems st sv ir s (ls, ps) = Inr (ls1, ps1)"
    and "opt_list (last_branch ls) = ladder_of bs"
  shows "\<exists>new_call. ctor (ems (subroutines st ! s) ps) (cur_return_deref ls) ps =
                       Inr (new_call, ps1) \<and>
           opt_list (last_branch ls1) = ladder_of ((branch_cond ir sv s, new_call) # bs)"
proof -
  from assms(1,2) obtain new_call where
    c: "ctor (ems (subroutines st ! s) ps) (cur_return_deref ls) ps = Inr (new_call, ps1)"
    by (auto simp: ladder_step_with_def Let_def clone_deref_def
             split: sum.splits if_splits option.splits)
  let ?branch = "case last_branch ls of
                   None \<Rightarrow> if_tree (branch_cond ir sv s) (Ir_call new_call)
                 | Some lb \<Rightarrow> if_tree_else (branch_cond ir sv s) (Ir_call new_call) lb"
  from assms(1,2) c have lb: "last_branch ls1 = Some ?branch"
    by (auto simp: ladder_step_with_def Let_def clone_deref_def
             split: if_splits option.splits)
  from assms(3) have "?branch = Ir_if (branch_cond ir sv s) [Ir_call new_call] (ladder_of bs)"
    by (cases "last_branch ls") (simp_all add: opt_list_def if_tree_def if_tree_else_def)
  with lb c show ?thesis by (simp add: opt_list_def)
qed

lemma ladder_loop_with_branches:
  assumes "ladder_loop_with ctor ems st sv ir k (ls, ps) = Inr (ls', ps')"
    and "opt_list (last_branch ls) = ladder_of bs"
  shows "\<exists>calls. length calls = length (eligible_below st sv k) \<and>
           opt_list (last_branch ls') =
             ladder_of (zip (map (branch_cond ir sv) (eligible_below st sv k)) calls @ bs)"
  using assms
proof (induction k arbitrary: ls ps bs)
  case 0
  then show ?case by (simp add: eligible_below_def)
next
  case (Suc k)
  from Suc.prems(1) obtain ls1 ps1 where
    step: "ladder_step_with ctor ems st sv ir k (ls, ps) = Inr (ls1, ps1)" and
    loop: "ladder_loop_with ctor ems st sv ir k (ls1, ps1) = Inr (ls', ps')"
    by (auto split: sum.splits)
  show ?case
  proof (cases "is_compat sv (subroutines st ! k)")
    case False
    with step have "ls1 = ls" by (simp add: ladder_step_with_skip)
    with Suc.IH[OF loop] Suc.prems(2) False show ?thesis
      by (simp add: eligible_below_Suc)
  next
    case True
    from ladder_step_with_branch[OF True step Suc.prems(2)] obtain new_call where
      "opt_list (last_branch ls1) = ladder_of ((branch_cond ir sv k, new_call) # bs)"
      by blast
    from Suc.IH[OF loop this] obtain calls where
      len: "length calls = length (eligible_below st sv k)" and
      lad: "opt_list (last_branch ls') =
              ladder_of (zip (map (branch_cond ir sv) (eligible_below st sv k)) calls @
                         (branch_cond ir sv k, new_call) # bs)"
      by auto
    let ?calls = "calls @ [new_call]"
    from len True have "length ?calls = length (eligible_below st sv (Suc k))"
      by (simp add: eligible_below_Suc)
    moreover from len True
    have "zip (map (branch_cond ir sv) (eligible_below st sv (Suc k))) ?calls @ bs =
          zip (map (branch_cond ir sv) (eligible_below st sv k)) calls @
            (branch_cond ir sv k, new_call) # bs"
      by (simp add: eligible_below_Suc)
    ultimately show ?thesis using lad by metis
  qed
qed

lemma visit_leave_with_conds:
  assumes "sub_var ir = Some sv" and "visit_leave_with ctor ems v h ir = Inr (v', h', out)"
  shows "out = ladder_of (ladder_branches out)"
    and "map fst (ladder_branches out) =
           map (branch_cond ir sv) (eligible (visitor_state v) sv)"
proof -
  let ?st = "visitor_state v"
  let ?ls = "\<lparr>last_branch = None, cur_return_deref = return_deref ir, next_id = h\<rparr>"
  from assms obtain ls' ps' where
    loop: "ladder_loop_with ctor ems ?st sv ir (length (subroutines ?st))
             (?ls, actual_parameters ir) = Inr (ls', ps')" and
    out: "out = opt_list (last_branch ls')"
    by (auto simp: visit_leave_with_def opt_list_def split: sum.splits)
  have "opt_list (last_branch ?ls) = ladder_of []" by (simp add: opt_list_def)
  from ladder_loop_with_branches[OF loop this] out obtain calls where
    len: "length calls = length (eligible ?st sv)" and
    lad: "out = ladder_of (zip (map (branch_cond ir sv) (eligible ?st sv)) calls)"
    by (auto simp: eligible_def)
  from lad have bs: "ladder_branches out = zip (map (branch_cond ir sv) (eligible ?st sv)) calls"
    by (simp add: ladder_branches_ladder_of)
  show "out = ladder_of (ladder_branches out)" unfolding bs by (rule lad)
  from len show "map fst (ladder_branches out) = map (branch_cond ir sv) (eligible ?st sv)"
    unfolding bs by simp
qed

lemma example_eligible: "eligible example_state example_sub_var = [1, 3, 4]"
  by code_simp

subsection \<open>The traversal\<close>

lemma visit_keeps_visitor:
  "visit_instruction ems v h i = Inr (v', h', out) \<Longrightarrow> v' = v"
  "visit_list_elements ems v h instrs = Inr (v', h', out) \<Longrightarrow> v' = v"
proof (induction ems v h i and ems v h instrs arbitrary: v' h' out and v' h' out
       rule: visit_instruction_visit_list_elements.induct)
  case (1 ems v h ir)
  then show ?case
    by (auto simp: visit_leave_def split: option.splits sum.splits)
next
  case (2 ems v h c thn els)
  from "2.prems" obtain v1 h1 thn' els' where
    t: "visit_list_elements ems v h thn = Inr (v1, h1, thn')" and
    e: "visit_list_elements ems v1 h1 els = Inr (v', h', els')"
    by (auto split: sum.splits)
  from "2.IH"(1)[OF t] have "v1 = v" .
  moreover from "2.IH"(2)[OF t refl refl e] have "v' = v1" .
  ultimately show ?case by simp
next
  case (3 ems v h k)
  then show ?case by simp
next
  case (4 ems v h)
  then show ?case by simp
next
  case (5 ems v h i rest)
  from "5.prems" obtain v1 h1 o1 rest' where
    i: "visit_instruction ems v h i = Inr (v1, h1, o1)" and
    r: "visit_list_elements ems v1 h1 rest = Inr (v', h', rest')"
    by (auto split: sum.splits)
  from "5.IH"(1)[OF i] have "v1 = v" .
  moreover from "5.IH"(2)[OF i refl refl r] have "v' = v1" .
  ultimately show ?case by simp
qed

lemma lower_subroutine_no_progress:
  "lower_subroutine ems h instrs st = Inr (p, h', out) \<Longrightarrow> \<not> p"
proof -
  assume a: "lower_subroutine ems h instrs st = Inr (p, h', out)"
  let ?v = "\<lparr>visitor_progress = False, visitor_state = st\<rparr>"
  from a obtain v' where
    r: "visit_list_elements ems ?v h instrs = Inr (v', h', out)" and p: "p = visitor_progress v'"
    by (auto simp: lower_subroutine_def Let_def split: sum.splits)
  from visit_keeps_visitor(2)[OF r] p show ?thesis by simp
qed

lemma visit_no_indirect:
  "\<not> has_indirect_call i \<Longrightarrow> visit_instruction ems v h i = Inr (v, h, [i])"
  "\<not> list_ex has_indirect_call instrs \<Longrightarrow> visit_list_elements ems v h instrs = Inr (v, h, instrs)"
proof (induction ems v h i and ems v h instrs
       rule: visit_instruction_visit_list_elements.induct)
  case (1 ems v h ir)
  then show ?case by (simp add: visit_leave_direct)
next
  case (2 ems v h c thn els)
  from "2.prems" have t: "\<not> list_ex has_indirect_call thn"
    and e: "\<not> list_ex has_indirect_call els" by simp_all
  from "2.IH"(1)[OF t] have t': "visit_list_elements ems v h thn = Inr (v, h, thn)" .
  from "2.IH"(2)[OF t' refl refl e] t' show ?case by simp
next
  case (3 ems v h k)
  show ?case by simp
next
  case (4 ems v h)
  show ?case by simp
next
  case (5 ems v h i rest)
  from "5.prems" have i: "\<not> has_indirect_call i"
    and r: "\<not> list_ex has_indirect_call rest" by simp_all
  from "5.IH"(1)[OF i] have i': "visit_instruction ems v h i = Inr (v, h, [i])" .
  from "5.IH"(2)[OF i' refl refl r] i' show ?case by simp
qed

lemma visit_list_prefix:
  assumes "\<not> list_ex has_indirect_call before"
  shows "visit_list_elements ems v h (before @ rest) =
         (case visit_list_elements ems v h rest of
            Inl e \<Rightarrow> Inl e
          | Inr (v', h', rest') \<Rightarrow> Inr (v', h', before @ rest'))"
  using assms
proof (induction before)
  case Nil
  show ?case by (simp split: sum.splits)
next
  case (Cons i before)
  then have i: "visit_instruction ems v h i = Inr (v, h, [i])"
    and b: "\<not> list_ex has_indirect_call before"
    by (simp_all add: visit_no_indirect(1))
  from Cons.IH[OF b] i show ?case by (simp split: sum.splits)
qed

lemma visit_list_splice:
  assumes "\<not> list_ex has_indirect_call before" and "\<not> list_ex has_indirect_call after"
    and "visit_leave ems v h ir = Inr (v, h', out)"
  shows "visit_list_elements ems v h (before @ Ir_call ir # after) =
           Inr (v, h', before @ out @ after)"
proof -
  from assms(2) have "visit_list_elements ems v h' after = Inr (v, h', after)"
    by (rule visit_no_indirect(2))
  with assms(3) have "visit_list_elements ems v h (Ir_call ir # after) = Inr (v, h', out @ after)"
    by simp
  with visit_list_prefix[OF assms(1), of ems v h "Ir_call ir # after"] show ?thesis by simp
qed


section \<open>The statements about subroutine lowering\<close>

text \<open>
  C3, as stated: the ladder is built from the highest index to the lowest, so the
  highest eligible index is the outermost test. Each new conditional takes the ladder
  built so far as its else branch, so the branch built last, for the lowest eligible
  index, is the outermost one: with candidates 1, 3 and 4 eligible the outermost
  condition tests index 1, not index 4.
\<close>

theorem if_ladder_outermost_is_lowest:
  "visit_leave example_lookup example_visitor 10 example_call =
     Inr (example_visitor, 13, [example_ladder]) \<and>
   eligible example_state example_sub_var = [1, 3, 4] \<and>
   outermost_test [example_ladder] = Some 1 \<and>
   outermost_test [example_ladder] \<noteq> Some 4"
  by code_simp

text \<open>
  C3, amended. For an indirect call that has a return destination, or whose eligible
  candidates are at index 0 only: the ladder has exactly one branch for each registry
  index whose candidate declares the type of the bound variable, arrays stripped; the
  branch for index \<open>s\<close> compares the bound value with the constant \<open>s\<close>; the branches
  stand in increasing order of index from the outermost to the innermost; and when the
  bound value is one of the eligible indices, exactly one call is made.
\<close>

theorem if_ladder_branches:
  assumes "sub_var ir = Some sv" and "\<not> clones_null (visitor_state v) ir"
  shows "\<exists>h' out. visit_leave ems v h ir = Inr (v, h', out) \<and>
           out = ladder_of (ladder_branches out) \<and>
           map fst (ladder_branches out) =
             map (branch_cond ir sv) (eligible (visitor_state v) sv) \<and>
           set (eligible (visitor_state v) sv) =
             {s. s < length (subroutines (visitor_state v)) \<and>
                 without_array (ir_var_type sv)
                   \<in> set (subroutine_types (subroutines (visitor_state v) ! s))} \<and>
           sorted (eligible (visitor_state v) sv) \<and>
           distinct (eligible (visitor_state v) sv) \<and>
           (\<forall>s\<in>set (eligible (visitor_state v) sv).
              \<exists>rd. concat (map (executed_calls (int s)) out) =
                     [new_ir_call (ems (subroutines (visitor_state v) ! s) (actual_parameters ir))
                                  rd (actual_parameters ir)])"
proof -
  let ?st = "visitor_state v"
  let ?el = "eligible ?st sv"
  from visit_leave_total[OF assms(2)] obtain h' out where
    r: "visit_leave ems v h ir = Inr (v, h', out)" by blast
  from visit_leave_ladder[OF assms(1) r] obtain rds where
    len: "length rds = length ?el" and
    out: "out = ladder_of (map2 (branch_for ems ?st sv ir) ?el rds)" by blast
  let ?bs = "map2 (branch_for ems ?st sv ir) ?el rds"
  from out have bs: "ladder_branches out = ?bs" by (simp add: ladder_branches_ladder_of)
  from branches_of_map2[OF len] have conds: "map fst ?bs = map (branch_cond ir sv) ?el"
    by blast
  have run: "\<forall>s\<in>set ?el. \<exists>rd. concat (map (executed_calls (int s)) out) =
                 [new_ir_call (ems (subroutines ?st ! s) (actual_parameters ir))
                              rd (actual_parameters ir)]"
  proof
    fix s assume "s \<in> set ?el"
    from executed_ladder[OF len[symmetric] this, of ems ?st sv ir] out
    show "\<exists>rd. concat (map (executed_calls (int s)) out) =
                 [new_ir_call (ems (subroutines ?st ! s) (actual_parameters ir))
                              rd (actual_parameters ir)]" by simp
  qed
  have wf: "out = ladder_of (ladder_branches out)" unfolding bs by (rule out)
  have conds': "map fst (ladder_branches out) = map (branch_cond ir sv) ?el"
    unfolding bs by (rule conds)
  note es = eligible_set[of ?st sv]
  note ss = eligible_sorted[of ?st sv]
  show ?thesis
  proof (intro exI conjI)
    show "visit_leave ems v h ir = Inr (v, h', out)" by (rule r)
    show "out = ladder_of (ladder_branches out)" by (rule wf)
    show "map fst (ladder_branches out) = map (branch_cond ir sv) ?el" by (rule conds')
    show "set ?el = {s. s < length (subroutines ?st) \<and>
                 without_array (ir_var_type sv) \<in> set (subroutine_types (subroutines ?st ! s))}"
      by (rule es)
    show "sorted ?el" using ss by simp
    show "distinct ?el" using ss by simp
    show "\<forall>s\<in>set ?el. \<exists>rd. concat (map (executed_calls (int s)) out) =
                 [new_ir_call (ems (subroutines ?st ! s) (actual_parameters ir))
                              rd (actual_parameters ir)]" by (rule run)
  qed
qed

theorem if_ladder_branches_witness:
  "sub_var example_call = Some example_sub_var \<and>
   \<not> clones_null (visitor_state example_visitor) example_call \<and>
   (\<exists>h' out. visit_leave example_lookup example_visitor 10 example_call =
                Inr (example_visitor, h', out) \<and>
      map fst (ladder_branches out) =
        map (branch_cond example_call example_sub_var)
            (eligible (visitor_state example_visitor) example_sub_var) \<and>
      (\<forall>s\<in>set (eligible (visitor_state example_visitor) example_sub_var).
         \<exists>rd. concat (map (executed_calls (int s)) out) =
                [new_ir_call (example_lookup (subroutines (visitor_state example_visitor) ! s)
                                             (actual_parameters example_call))
                             rd (actual_parameters example_call)]))"
proof -
  have h1: "sub_var example_call = Some example_sub_var"
    by (simp add: example_call_def)
  have h2: "\<not> clones_null (visitor_state example_visitor) example_call"
    by (simp add: clones_null_def example_call_def)
  from if_ladder_branches[OF h1 h2, of example_lookup 10] h1 h2 show ?thesis
    by blast
qed



text \<open>
  C5. Each entry point returns true if and only if the pass modified the program; in
  particular subroutine lowering returns true whenever it replaced or removed an
  indirect call. The entry point of subroutine lowering returns the visitor's
  \<open>progress\<close> flag, which the constructor clears and \<open>visit_leave\<close> never sets: on
  the example program, whose indirect call it replaces by a ladder of three branches,
  it returns false.
\<close>

theorem lower_subroutine_reports_no_progress:
  "lower_subroutine example_lookup 10 example_instructions example_state =
     Inr (False, 13, [Ir_other 0, example_ladder, Ir_other 1]) \<and>
   [Ir_other 0, example_ladder, Ir_other 1] \<noteq> example_instructions"
  by code_simp

text \<open>
  C8, as stated: a candidate whose lookup finds no matching signature silently
  contributes no branch, and no error is raised. Between the lookup and the branch
  there is no test: the lookup's result goes to the constructor of the call, and the
  call the constructor returns is wrapped in the candidate's branch. With no signature
  found in candidate 3, whatever the list of arguments, there is no constructor under
  which the visit of the example call completes with a ladder that lacks the test of
  index 3.
\<close>

theorem failed_lookup_is_not_dropped:
  "(\<forall>params. example_partial_lookup (subroutines example_state ! 3) params = None) \<and>
   \<not> (\<exists>ctor v' h' out.
        visit_leave_with ctor example_partial_lookup example_visitor 10 example_call =
          Inr (v', h', out) \<and>
        Some 3 \<notin> set (map (tested_index \<circ> fst) (ladder_branches out)))"
proof
  show "\<forall>params. example_partial_lookup (subroutines example_state ! 3) params = None"
    by (simp add: example_partial_lookup_def example_state_def)
next
  show "\<not> (\<exists>ctor v' h' out.
        visit_leave_with ctor example_partial_lookup example_visitor 10 example_call =
          Inr (v', h', out) \<and>
        Some 3 \<notin> set (map (tested_index \<circ> fst) (ladder_branches out)))"
  proof
    assume "\<exists>ctor v' h' out.
        visit_leave_with ctor example_partial_lookup example_visitor 10 example_call =
          Inr (v', h', out) \<and>
        Some 3 \<notin> set (map (tested_index \<circ> fst) (ladder_branches out))"
    then obtain ctor v' h' out where
      r: "visit_leave_with ctor example_partial_lookup example_visitor 10 example_call =
            Inr (v', h', out)" and
      n: "Some 3 \<notin> set (map (tested_index \<circ> fst) (ladder_branches out))"
      by blast
    have sv: "sub_var example_call = Some example_sub_var" by (simp add: example_call_def)
    from visit_leave_with_conds(2)[OF sv r]
    have "map fst (ladder_branches out) =
            map (branch_cond example_call example_sub_var) [1, 3, 4]"
      by (simp add: example_eligible example_visitor_def)
    then have "map (tested_index \<circ> fst) (ladder_branches out) =
            map (tested_index \<circ> branch_cond example_call example_sub_var) [1, 3, 4]"
      by (metis map_map)
    then have "map (tested_index \<circ> fst) (ladder_branches out) = [Some 1, Some 3, Some 4]"
      by simp
    with n show False by simp
  qed
qed

text \<open>
  C8, amended. Whatever the lookups return and whatever the constructor of the call
  does, a visit of an indirect call that completes leaves a ladder with exactly one
  branch for every eligible candidate, testing that candidate's index: a candidate
  whose lookup found no signature is not skipped. (Under the constructor that holds
  what it is given, the example keeps its three branches; under one that fails on a
  null signature, the visit fails.)
\<close>

theorem failed_lookup_keeps_candidate:
  assumes "sub_var ir = Some sv"
    and "visit_leave_with ctor ems v h ir = Inr (v', h', out)"
  shows "map fst (ladder_branches out) =
           map (branch_cond ir sv) (eligible (visitor_state v) sv) \<and>
         length (ladder_branches out) = length (eligible (visitor_state v) sv) \<and>
         (\<forall>s\<in>set (eligible (visitor_state v) sv).
            Some (int s) \<in> set (map (tested_index \<circ> fst) (ladder_branches out)))"
proof -
  note c = visit_leave_with_conds(2)[OF assms]
  from c have l: "length (ladder_branches out) = length (eligible (visitor_state v) sv)"
    by (metis length_map)
  from c have "map (tested_index \<circ> fst) (ladder_branches out) =
      map (tested_index \<circ> branch_cond ir sv) (eligible (visitor_state v) sv)"
    by (metis map_map)
  then have "\<forall>s\<in>set (eligible (visitor_state v) sv).
            Some (int s) \<in> set (map (tested_index \<circ> fst) (ladder_branches out))"
    by (simp add: image_iff) 
  with c l show ?thesis by blast
qed

theorem failed_lookup_keeps_candidate_witness:
  "sub_var example_call = Some example_sub_var \<and>
   visit_leave_with stores_arguments example_partial_lookup example_visitor 10 example_call =
     Inr (example_visitor, 13, [example_ladder_null]) \<and>
   visit_leave_with rejects_null_signature example_partial_lookup example_visitor 10
     example_call = Inl Null_pointer_dereference \<and>
   map fst (ladder_branches [example_ladder_null]) =
     map (branch_cond example_call example_sub_var)
         (eligible (visitor_state example_visitor) example_sub_var) \<and>
   length (ladder_branches [example_ladder_null]) =
     length (eligible (visitor_state example_visitor) example_sub_var)"
proof -
  have h1: "sub_var example_call = Some example_sub_var"
    by (simp add: example_call_def)
  have h2: "visit_leave_with stores_arguments example_partial_lookup example_visitor 10
              example_call = Inr (example_visitor, 13, [example_ladder_null])"
    by code_simp
  have h3: "visit_leave_with rejects_null_signature example_partial_lookup example_visitor 10
     example_call = Inl Null_pointer_dereference"
    by code_simp
  from failed_lookup_keeps_candidate[OF h1 h2] h1 h2 h3 show ?thesis by blast
qed

text \<open>
  C9. For every indirect call the ladder, when there is one, is inserted before the
  call and the call is removed unconditionally. On an indirect call without return
  destination, with eligible candidates at indices 1, 3 and 4, the loop builds the
  first branch and then clones the destination through a null pointer, so the visit
  ends there: no ladder is inserted and the call is not removed. (Where the loop runs
  to its end the splice is as stated: \<open>visit_list_splice\<close>, \<open>visit_leave_no_candidate\<close>.)
\<close>

theorem void_call_stops_the_pass:
  "sub_var example_void_call = Some example_sub_var \<and>
   return_deref example_void_call = None \<and>
   eligible example_state example_sub_var = [1, 3, 4] \<and>
   visit_leave example_lookup example_visitor 10 example_void_call =
     Inl Null_pointer_dereference \<and>
   lower_subroutine example_lookup 10 example_void_instructions example_state =
     Inl Null_pointer_dereference"
  by code_simp

end
